theory Spec2Isabelle
  imports Main "HOL-Library.Product_Lexorder"
begin

section \<open>Python strings\<close>

text \<open>
  A Python \<open>str\<close> is modelled as a \<open>string\<close>; a \<open>char\<close> stands for a code point
  below 256. The built-ins \<open>str.lower\<close>, \<open>str.isspace\<close>, \<open>str.strip\<close>,
  \<open>str.isdigit\<close> and \<open>str.split\<close> are written out for that range.
\<close>

definition code_point :: "char \<Rightarrow> nat" where
  "code_point c = of_char c"

definition lower_char :: "char \<Rightarrow> char" where
  "lower_char c =
     (let n = code_point c
      in if (65 \<le> n \<and> n \<le> 90) \<or> (192 \<le> n \<and> n \<le> 222 \<and> n \<noteq> 215)
         then char_of (n + 32) else c)"

definition lower :: "string \<Rightarrow> string" where
  "lower s = map lower_char s"

definition isspace_char :: "char \<Rightarrow> bool" where
  "isspace_char c =
     (let n = code_point c
      in (9 \<le> n \<and> n \<le> 13) \<or> (28 \<le> n \<and> n \<le> 32) \<or> n = 133 \<or> n = 160)"

definition strip :: "string \<Rightarrow> string" where
  "strip s = rev (dropWhile isspace_char (rev (dropWhile isspace_char s)))"

definition isdigit_char :: "char \<Rightarrow> bool" where
  "isdigit_char c =
     (let n = code_point c
      in (48 \<le> n \<and> n \<le> 57) \<or> n = 178 \<or> n = 179 \<or> n = 185)"

definition isdigit :: "string \<Rightarrow> bool" where
  "isdigit s = (s \<noteq> [] \<and> list_all isdigit_char s)"

text \<open>\<open>str.split()\<close> without arguments: the maximal runs of non-whitespace characters.\<close>

fun split_ws :: "string \<Rightarrow> string \<Rightarrow> string list" where
  "split_ws cur [] = (if cur = [] then [] else [cur])"
| "split_ws cur (c # cs) =
     (if isspace_char c
      then (if cur = [] then split_ws [] cs else cur # split_ws [] cs)
      else split_ws (cur @ [c]) cs)"

definition split :: "string \<Rightarrow> string list" where
  "split s = split_ws [] s"

text \<open>\<open>string.punctuation\<close> and \<open>string.ascii_lowercase\<close>.\<close>

definition punctuation :: string where
  "punctuation = [CHR ''!'', CHR 0x22, CHR ''#'', CHR ''$'', CHR ''%'', CHR ''&'', CHR 0x27,
     CHR ''('', CHR '')'', CHR ''*'', CHR ''+'', CHR '','', CHR ''-'', CHR ''.'', CHR ''/'',
     CHR '':'', CHR '';'', CHR ''<'', CHR ''='', CHR ''>'', CHR ''?'', CHR ''@'', CHR ''['',
     CHR 0x5C, CHR '']'', CHR ''^'', CHR ''_'', CHR 0x60, CHR ''{'', CHR ''|'', CHR ''}'',
     CHR ''~'']"

definition ascii_lowercase :: string where
  "ascii_lowercase = ''abcdefghijklmnopqrstuvwxyz''"

text \<open>\<open>a in b\<close> on two strings is the substring test.\<close>

fun is_prefix :: "string \<Rightarrow> string \<Rightarrow> bool" where
  "is_prefix [] ys = True"
| "is_prefix (x # xs) [] = False"
| "is_prefix (x # xs) (y # ys) = (x = y \<and> is_prefix xs ys)"

fun str_in :: "string \<Rightarrow> string \<Rightarrow> bool" where
  "str_in a [] = (a = [])"
| "str_in a (y # ys) = (is_prefix a (y # ys) \<or> str_in a ys)"

section \<open>The Corrector\<close>

text \<open>
  A Python \<open>set\<close> is kept as the list of its elements in iteration order. That order is
  not specified by the language; wherever the source builds a set, the model applies a
  parameter \<open>ord\<close> to the sequence of inserted elements, and \<open>set_order\<close> says that
  \<open>ord\<close> returns each inserted element once.
\<close>

type_synonym py_order = "string list \<Rightarrow> string list"

definition set_order :: "py_order \<Rightarrow> bool" where
  "set_order ord = (\<forall>xs. set (ord xs) = set xs \<and> distinct (ord xs))"

text \<open>
  The fields of \<open>Corrector\<close>. \<open>word_freq\<close> is the \<open>Counter\<close>; the third-party
  \<open>SpellChecker\<close> is kept as the words added to it and its \<open>correction\<close> method, a
  function of those words and the queried word that may return \<open>None\<close>.
\<close>

record corrector =
  dictionary :: "string list"
  word_freq :: "string \<rightharpoonup> int"
  user_corrections :: "string \<rightharpoonup> string"
  spell_added :: "string list"
  spell_correction :: "string list \<Rightarrow> string \<Rightarrow> string option"

text \<open>\<open>self.word_freq.get(x, 0)\<close>\<close>

definition freq_get :: "corrector \<Rightarrow> string \<Rightarrow> int" where
  "freq_get c x = (case word_freq c x of None \<Rightarrow> 0 | Some f \<Rightarrow> f)"

subsection \<open>\<open>_calculate_levenshtein_distance\<close>\<close>

text \<open>One pass of the inner loop: appends entry \<open>j + 1\<close> of \<open>current_row\<close>.\<close>

definition row_step :: "char \<Rightarrow> nat list \<Rightarrow> nat \<times> char \<Rightarrow> nat list \<Rightarrow> nat list" where
  "row_step c1 previous_row jc current_row =
     (case jc of (j, c2) \<Rightarrow>
        (let insertions = previous_row ! (j + 1) + 1;
             deletions = current_row ! j + 1;
             substitutions = previous_row ! j + (if c1 \<noteq> c2 then 1 else 0)
         in current_row @ [min insertions (min deletions substitutions)]))"

definition next_row :: "string \<Rightarrow> nat \<times> char \<Rightarrow> nat list \<Rightarrow> nat list" where
  "next_row word2 ic previous_row =
     (case ic of (i, c1) \<Rightarrow> fold (row_step c1 previous_row) (enumerate 0 word2) [i + 1])"

definition lev_rows :: "string \<Rightarrow> string \<Rightarrow> nat list" where
  "lev_rows word1 word2 = fold (next_row word2) (enumerate 0 word1) [0 ..< length word2 + 1]"

definition calculate_levenshtein_distance :: "string \<Rightarrow> string \<Rightarrow> nat" where
  "calculate_levenshtein_distance word1 word2 =
     (let (w1, w2) = (if length word1 < length word2 then (word2, word1) else (word1, word2))
      in if length w2 = 0 then length w1 else last (lev_rows w1 w2))"

subsection \<open>\<open>_get_candidates\<close> (Strategy A)\<close>

definition get_candidates :: "corrector \<Rightarrow> string \<Rightarrow> int \<Rightarrow> string list" where
  "get_candidates c word max_distance =
     (if word \<in> set (dictionary c) then [word]
      else
        (let candidates =
               filter (\<lambda>p. int (snd p) \<le> max_distance)
                 (map (\<lambda>dict_word. (dict_word, calculate_levenshtein_distance word dict_word))
                    (dictionary c))
         in map fst (sort_key (\<lambda>x. (snd x, - freq_get c (fst x))) candidates)))"

subsection \<open>\<open>_get_norvig_candidates\<close> (Strategy B)\<close>

definition splits :: "string \<Rightarrow> (string \<times> string) list" where
  "splits word = map (\<lambda>i. (take i word, drop i word)) [0 ..< length word + 1]"

definition deletes :: "string \<Rightarrow> string list" where
  "deletes word = [L @ drop 1 R. (L, R) \<leftarrow> splits word, R \<noteq> []]"

definition transposes :: "string \<Rightarrow> string list" where
  "transposes word = [L @ [R ! 1] @ [R ! 0] @ drop 2 R. (L, R) \<leftarrow> splits word, length R > 1]"

definition replaces :: "string \<Rightarrow> string list" where
  "replaces word = [L @ [c] @ drop 1 R. (L, R) \<leftarrow> splits word, R \<noteq> [], c \<leftarrow> ascii_lowercase]"

definition inserts :: "string \<Rightarrow> string list" where
  "inserts word = [L @ [c] @ R. (L, R) \<leftarrow> splits word, c \<leftarrow> ascii_lowercase]"

definition edits1 :: "py_order \<Rightarrow> string \<Rightarrow> string list" where
  "edits1 ord word = ord (deletes word @ transposes word @ replaces word @ inserts word)"

definition edits2 :: "py_order \<Rightarrow> string \<Rightarrow> string list" where
  "edits2 ord word = ord (concat (map (edits1 ord) (edits1 ord word)))"

definition get_norvig_candidates :: "py_order \<Rightarrow> corrector \<Rightarrow> string \<Rightarrow> int \<Rightarrow> string list" where
  "get_norvig_candidates ord c word max_distance =
     (let known = (\<lambda>e. e \<in> set (dictionary c));
          candidates0 = [];
          candidates1 = (if max_distance \<ge> 1
                         then ord (candidates0 @ filter known (edits1 ord word))
                         else candidates0);
          candidates2 = (if max_distance \<ge> 2 \<and> candidates1 = []
                         then ord (candidates1 @ filter known (edits2 ord word))
                         else candidates1);
          candidates3 = (if word \<in> set (dictionary c)
                         then ord (candidates2 @ [word])
                         else candidates2);
          candidates = sort_key (\<lambda>x. - freq_get c x) candidates3
      in if candidates \<noteq> [] then candidates else [word])"

subsection \<open>\<open>correct_word\<close>\<close>

datatype error = IndexError | ValueError | IOError

text \<open>
  \<open>Counter(xs)\<close> keeps its keys in order of first occurrence; \<open>most_common(1)\<close> is
  the first entry of greatest count, in a list that is empty for an empty counter.
\<close>

fun counter_add :: "string \<Rightarrow> (string \<times> nat) list \<Rightarrow> (string \<times> nat) list" where
  "counter_add x [] = [(x, 1)]"
| "counter_add x ((y, n) # ps) = (if x = y then (y, n + 1) # ps else (y, n) # counter_add x ps)"

definition counter :: "string list \<Rightarrow> (string \<times> nat) list" where
  "counter xs = fold counter_add xs []"

fun first_max :: "string \<times> nat \<Rightarrow> (string \<times> nat) list \<Rightarrow> string \<times> nat" where
  "first_max best [] = best"
| "first_max best (p # ps) = first_max (if snd p > snd best then p else best) ps"

definition most_common_1 :: "(string \<times> nat) list \<Rightarrow> (string \<times> nat) list" where
  "most_common_1 ps = (case ps of [] \<Rightarrow> [] | p # qs \<Rightarrow> [first_max p qs])"

text \<open>\<open>x or word\<close> on the result of \<open>correction\<close>: \<open>None\<close> and the empty string are false.\<close>

definition or_word :: "string option \<Rightarrow> string \<Rightarrow> string" where
  "or_word r word = (case r of None \<Rightarrow> word | Some s \<Rightarrow> if s = [] then word else s)"

definition first_or :: "string list \<Rightarrow> string \<Rightarrow> string" where
  "first_or xs word = (case xs of [] \<Rightarrow> word | x # _ \<Rightarrow> x)"

definition vote :: "string list \<Rightarrow> error + string" where
  "vote corrections =
     (case most_common_1 (counter corrections) of
        [] \<Rightarrow> Inl IndexError
      | (best_correction, count) # _ \<Rightarrow> Inr best_correction)"

definition correct_word :: "py_order \<Rightarrow> corrector \<Rightarrow> string \<Rightarrow> error + string" where
  "correct_word ord c word0 =
     (if word0 = [] \<or> strip word0 = [] then Inr word0
      else
        (let word = strip (lower word0)
         in if word \<in> set (dictionary c) then Inr word
            else
              (case user_corrections c word of
                 Some u \<Rightarrow> Inr u
               | None \<Rightarrow>
                   (let norvig_correction = spell_correction c (spell_added c) word;
                        levenshtein_candidates = get_candidates c word 2;
                        levenshtein_correction = first_or levenshtein_candidates word;
                        norvig_candidates = get_norvig_candidates ord c word 2;
                        norvig_direct_correction = first_or norvig_candidates word
                    in vote [or_word norvig_correction word,
                             levenshtein_correction,
                             norvig_direct_correction]))))"

subsection \<open>\<open>add_to_dictionary\<close>, \<open>add_user_correction\<close>\<close>

definition add_to_dictionary :: "py_order \<Rightarrow> corrector \<Rightarrow> string \<Rightarrow> int \<Rightarrow> corrector" where
  "add_to_dictionary ord c word0 frequency =
     (let word = strip (lower word0)
      in c\<lparr>dictionary := ord (dictionary c @ [word]),
            word_freq := (word_freq c)(word \<mapsto> frequency),
            spell_added := spell_added c @ [word]\<rparr>)"

definition add_user_correction :: "py_order \<Rightarrow> corrector \<Rightarrow> string \<Rightarrow> string \<Rightarrow> corrector" where
  "add_user_correction ord c misspelled_word0 correction0 =
     (let misspelled_word = strip (lower misspelled_word0);
          correction = strip (lower correction0);
          c1 = c\<lparr>user_corrections := (user_corrections c)(misspelled_word \<mapsto> correction)\<rparr>
      in if correction \<notin> set (dictionary c1) then add_to_dictionary ord c1 correction 1 else c1)"

subsection \<open>\<open>correct_text\<close>: the loop over the tokens\<close>

text \<open>
  Both correction modes tokenise with NLTK's \<open>word_tokenize\<close> and join the corrected
  tokens again; the loops between those two steps are modelled, on the token list.
\<close>

definition skip_token :: "string \<Rightarrow> bool" where
  "skip_token token = (str_in token punctuation \<or> isdigit token)"

fun correct_tokens :: "py_order \<Rightarrow> corrector \<Rightarrow> string list \<Rightarrow> string list \<Rightarrow> error + string list" where
  "correct_tokens ord c [] corrected_tokens = Inr corrected_tokens"
| "correct_tokens ord c (token # tokens) corrected_tokens =
     (if skip_token token then correct_tokens ord c tokens (corrected_tokens @ [token])
      else
        (case correct_word ord c token of
           Inl e \<Rightarrow> Inl e
         | Inr corrected \<Rightarrow> correct_tokens ord c tokens (corrected_tokens @ [corrected])))"

definition correct_text_tokens :: "py_order \<Rightarrow> corrector \<Rightarrow> string list \<Rightarrow> error + string list" where
  "correct_text_tokens ord c tokens = correct_tokens ord c tokens []"

subsection \<open>\<open>correct_with_context\<close>: the loop over the token indices\<close>

text \<open>\<open>' '.join([a, b])\<close>\<close>

definition join2 :: "string \<Rightarrow> string \<Rightarrow> string" where
  "join2 a b = a @ '' '' @ b"

definition context_score :: "corrector \<Rightarrow> string list \<Rightarrow> string list \<Rightarrow> string \<Rightarrow> int" where
  "context_score c context_before context_after candidate =
     (let score0 = 0;
          score1 = (if context_before \<noteq> []
                    then (case word_freq c (join2 (last context_before) candidate) of
                            None \<Rightarrow> score0 | Some f \<Rightarrow> score0 + f)
                    else score0);
          score2 = (if context_after \<noteq> []
                    then (case word_freq c (join2 candidate (hd context_after)) of
                            None \<Rightarrow> score1 | Some f \<Rightarrow> score1 + f)
                    else score1)
      in score2)"

fun best_loop :: "(string \<Rightarrow> int) \<Rightarrow> string list \<Rightarrow> string \<times> int \<Rightarrow> string \<times> int" where
  "best_loop score [] best = best"
| "best_loop score (candidate # candidates) best =
     best_loop score candidates
       (if score candidate > snd best then (candidate, score candidate) else best)"

text \<open>
  \<open>tokens[max(0, i-2):i]\<close> and \<open>tokens[i+1:min(len(tokens), i+3)]\<close>; on \<open>nat\<close>,
  \<open>i - 2\<close> is already \<open>max 0 (i - 2)\<close>.
\<close>

definition context_before_of :: "string list \<Rightarrow> nat \<Rightarrow> string list" where
  "context_before_of tokens i = drop (i - 2) (take i tokens)"

definition context_after_of :: "string list \<Rightarrow> nat \<Rightarrow> string list" where
  "context_after_of tokens i = drop (i + 1) (take (min (length tokens) (i + 3)) tokens)"

definition context_candidates :: "py_order \<Rightarrow> corrector \<Rightarrow> string \<Rightarrow> string list" where
  "context_candidates ord c token =
     (let candidates = get_candidates c token 2
      in if (case candidates of [] \<Rightarrow> True | x # _ \<Rightarrow> x = token)
         then get_norvig_candidates ord c token 2 else candidates)"

definition context_step ::
  "py_order \<Rightarrow> corrector \<Rightarrow> string list \<Rightarrow> nat \<Rightarrow> string list \<Rightarrow> error + string list" where
  "context_step ord c tokens i corrected_tokens =
     (let token = tokens ! i
      in if skip_token token then Inr corrected_tokens
         else if token \<in> set (dictionary c) then Inr corrected_tokens
         else
           (let candidates = context_candidates ord c token
            in if candidates = [] \<or> length candidates = 1
               then (case correct_word ord c token of
                       Inl e \<Rightarrow> Inl e
                     | Inr w \<Rightarrow> Inr (corrected_tokens[i := w]))
               else
                 (let context_before = context_before_of tokens i;
                      context_after = context_after_of tokens i;
                      best = best_loop (context_score c context_before context_after)
                               candidates (token, - 1)
                  in if snd best \<le> 0
                     then (case correct_word ord c token of
                             Inl e \<Rightarrow> Inl e
                           | Inr w \<Rightarrow> Inr (corrected_tokens[i := w]))
                     else Inr (corrected_tokens[i := fst best]))))"

fun context_loop ::
  "py_order \<Rightarrow> corrector \<Rightarrow> string list \<Rightarrow> nat list \<Rightarrow> string list \<Rightarrow> error + string list" where
  "context_loop ord c tokens [] corrected_tokens = Inr corrected_tokens"
| "context_loop ord c tokens (i # is) corrected_tokens =
     (case context_step ord c tokens i corrected_tokens of
        Inl e \<Rightarrow> Inl e
      | Inr corrected_tokens' \<Rightarrow> context_loop ord c tokens is corrected_tokens')"

definition correct_with_context_tokens ::
  "py_order \<Rightarrow> corrector \<Rightarrow> string list \<Rightarrow> error + string list" where
  "correct_with_context_tokens ord c tokens =
     context_loop ord c tokens [0 ..< length tokens] tokens"

subsection \<open>\<open>load_custom_dictionary\<close>\<close>

text \<open>
  The file is \<open>None\<close> when \<open>open\<close> raises; otherwise iterating over it yields lines
  and may fail part-way. \<open>py_int\<close> is \<open>int\<close> on a field without whitespace: an
  optional sign, then decimal digits with single underscores between them. The result
  carries the exception that the \<open>except\<close> clause reports, if any.
\<close>

datatype read = Line string | ReadFailure

definition digit_val :: "char \<Rightarrow> nat option" where
  "digit_val ch = (let n = code_point ch in if 48 \<le> n \<and> n \<le> 57 then Some (n - 48) else None)"

fun parse_digits :: "string \<Rightarrow> nat \<Rightarrow> bool \<Rightarrow> nat option" where
  "parse_digits [] acc after_digit = (if after_digit then Some acc else None)"
| "parse_digits (ch # cs) acc after_digit =
     (if ch = CHR ''_'' then (if after_digit then parse_digits cs acc False else None)
      else (case digit_val ch of
              None \<Rightarrow> None
            | Some d \<Rightarrow> parse_digits cs (10 * acc + d) True))"

definition py_int :: "string \<Rightarrow> int option" where
  "py_int s =
     (case s of
        [] \<Rightarrow> None
      | ch # cs \<Rightarrow>
          if ch = CHR ''-'' then map_option (\<lambda>n. - int n) (parse_digits cs 0 False)
          else if ch = CHR ''+'' then map_option int (parse_digits cs 0 False)
          else map_option int (parse_digits s 0 False))"

fun load_lines :: "py_order \<Rightarrow> corrector \<Rightarrow> read list \<Rightarrow> corrector \<times> error option" where
  "load_lines ord c [] = (c, None)"
| "load_lines ord c (ReadFailure # rest) = (c, Some IOError)"
| "load_lines ord c (Line line # rest) =
     (let parts = split (strip line)
      in if length parts \<ge> 2
         then (let word = lower (parts ! 0)
               in case py_int (parts ! 1) of
                    None \<Rightarrow> (c, Some ValueError)
                  | Some freq \<Rightarrow>
                      load_lines ord
                        (c\<lparr>dictionary := ord (dictionary c @ [word]),
                           word_freq := (word_freq c)(word \<mapsto> freq)\<rparr>) rest)
         else load_lines ord c rest)"

definition load_custom_dictionary ::
  "py_order \<Rightarrow> corrector \<Rightarrow> read list option \<Rightarrow> corrector \<times> error option" where
  "load_custom_dictionary ord c file =
     (case file of None \<Rightarrow> (c, Some IOError) | Some reads \<Rightarrow> load_lines ord c reads)"

section \<open>Reference notions\<close>

text \<open>
  The notions that the properties below are stated with are defined here on their own,
  not through the functions of the program.
\<close>

subsection \<open>Edit neighbourhoods\<close>

text \<open>
  The words at one edit from \<open>word\<close>: one character deleted, two adjacent characters
  exchanged, one character replaced by a lowercase letter, or a lowercase letter inserted
  at any position. The words at two edits are those at one edit from one of these.
\<close>

definition one_edit :: "string \<Rightarrow> string set" where
  "one_edit word =
     {xs @ ys | xs x ys. word = xs @ [x] @ ys} \<union>
     {xs @ [y, x] @ ys | xs x y ys. word = xs @ [x, y] @ ys} \<union>
     {xs @ [l] @ ys | xs x ys l. word = xs @ [x] @ ys \<and> l \<in> set ''abcdefghijklmnopqrstuvwxyz''} \<union>
     {xs @ [l] @ ys | xs ys l. word = xs @ ys \<and> l \<in> set ''abcdefghijklmnopqrstuvwxyz''}"

definition two_edit :: "string \<Rightarrow> string set" where
  "two_edit word = (\<Union>e \<in> one_edit word. one_edit e)"

subsection \<open>Levenshtein distance\<close>

text \<open>
  \<open>lev a b i j\<close> is the distance between the first \<open>i\<close> characters of \<open>a\<close> and the
  first \<open>j\<close> characters of \<open>b\<close>, by the usual recurrence: an empty prefix is at the
  length of the other one; otherwise the least of a deletion, an insertion and a
  substitution, which is free when the two last characters agree.
\<close>

fun lev :: "string \<Rightarrow> string \<Rightarrow> nat \<Rightarrow> nat \<Rightarrow> nat" where
  "lev a b 0 j = j"
| "lev a b (Suc i) 0 = Suc i"
| "lev a b (Suc i) (Suc j) =
     min (lev a b i (Suc j) + 1)
       (min (lev a b (Suc i) j + 1) (lev a b i j + (if a ! i = b ! j then 0 else 1)))"

definition levenshtein :: "string \<Rightarrow> string \<Rightarrow> nat" where
  "levenshtein a b = lev a b (length a) (length b)"

text \<open>\<open>x\<close> occurs in \<open>xs\<close> before the first occurrence of \<open>y\<close>.\<close>

definition ranked_before :: "string \<Rightarrow> string \<Rightarrow> string list \<Rightarrow> bool" where
  "ranked_before x y xs = (y \<in> set xs \<and> x \<in> set (takeWhile (\<lambda>z. z \<noteq> y) xs))"

subsection \<open>Context scores and the values written by the loops\<close>

text \<open>
  The context score of a candidate for the token at index \<open>i\<close>: the frequency recorded
  for the candidate after the preceding token, when there is one, plus the frequency
  recorded for the following token after the candidate, when there is one. The frequency
  of a pair is the entry of \<open>word_freq\<close> under the two words joined by a space, 0
  without an entry.
\<close>

definition neighbour_score :: "corrector \<Rightarrow> string list \<Rightarrow> nat \<Rightarrow> string \<Rightarrow> int" where
  "neighbour_score c tokens i candidate =
     (if 0 < i
      then (case word_freq c (tokens ! (i - 1) @ '' '' @ candidate) of None \<Rightarrow> 0 | Some f \<Rightarrow> f)
      else 0) +
     (if i + 1 < length tokens
      then (case word_freq c (candidate @ '' '' @ tokens ! (i + 1)) of None \<Rightarrow> 0 | Some f \<Rightarrow> f)
      else 0)"

text \<open>
  \<open>word_value\<close> is the word that \<open>correct_word\<close> returns, and \<open>context_value\<close> the
  token that iteration \<open>i\<close> of the loop of \<open>correct_with_context\<close> leaves at index
  \<open>i\<close>; the lemmas \<open>correct_word_total\<close> and \<open>context_step_value\<close> below relate
  them to the functions of the program.
\<close>

definition word_value :: "py_order \<Rightarrow> corrector \<Rightarrow> string \<Rightarrow> string" where
  "word_value ord c token = (case correct_word ord c token of Inl e \<Rightarrow> token | Inr w \<Rightarrow> w)"

definition context_value :: "py_order \<Rightarrow> corrector \<Rightarrow> string list \<Rightarrow> nat \<Rightarrow> string" where
  "context_value ord c tokens i =
     (let token = tokens ! i
      in if skip_token token \<or> token \<in> set (dictionary c) then token
         else
           (let candidates = context_candidates ord c token
            in if candidates = [] \<or> length candidates = 1 then word_value ord c token
               else
                 (let best = best_loop
                               (context_score c (context_before_of tokens i)
                                  (context_after_of tokens i))
                               candidates (token, - 1)
                  in if snd best \<le> 0 then word_value ord c token else fst best)))"

subsection \<open>The lines of a dictionary file\<close>

text \<open>
  A line with fewer than two fields is short; a line with two fields or more is an entry,
  of the first field in lower case and the integer that the second field denotes, unless
  the second field denotes no integer.
\<close>

datatype line_kind = Short | Entry string int | BadFrequency

definition kind_of_line :: "string \<Rightarrow> line_kind" where
  "kind_of_line line =
     (case split (strip line) of
        w # f # others \<Rightarrow> (case py_int f of None \<Rightarrow> BadFrequency | Some n \<Rightarrow> Entry (lower w) n)
      | _ \<Rightarrow> Short)"

subsection \<open>Correctors used as instances\<close>

text \<open>
  Each has the one dictionary given, no user correction, and an external suggester that is
  constant: it suggests nothing unless stated.
\<close>

definition c_the :: corrector where
  "c_the = \<lparr>dictionary = [''the''], word_freq = Map.empty, user_corrections = Map.empty,
            spell_added = [], spell_correction = (\<lambda>added word. None)\<rparr>"

definition c_far :: corrector where
  "c_far = \<lparr>dictionary = [''elephant''], word_freq = Map.empty, user_corrections = Map.empty,
            spell_added = [], spell_correction = (\<lambda>added word. None)\<rparr>"

definition c_vote :: corrector where
  "c_vote = \<lparr>dictionary = [''them'', ''the''], word_freq = Map.empty,
             user_corrections = Map.empty, spell_added = [],
             spell_correction = (\<lambda>added word. Some ''tea'')\<rparr>"

definition c_aaron :: corrector where
  "c_aaron = \<lparr>dictionary = [''Aaron''], word_freq = Map.empty, user_corrections = Map.empty,
              spell_added = [], spell_correction = (\<lambda>added word. None)\<rparr>"

definition c_teh :: corrector where
  "c_teh = \<lparr>dictionary = [''teh''], word_freq = Map.empty, user_corrections = Map.empty,
            spell_added = [], spell_correction = (\<lambda>added word. None)\<rparr>"

definition c_help :: corrector where
  "c_help = \<lparr>dictionary = [''hello'', ''help'', ''hold''], word_freq = [''help'' \<mapsto> 5],
             user_corrections = Map.empty, spell_added = [],
             spell_correction = (\<lambda>added word. None)\<rparr>"

definition c_hello :: corrector where
  "c_hello = \<lparr>dictionary = [''hold'', ''help'', ''hello''], word_freq = [''hello'' \<mapsto> 5],
              user_corrections = Map.empty, spell_added = [],
              spell_correction = (\<lambda>added word. None)\<rparr>"

definition c_a :: corrector where
  "c_a = \<lparr>dictionary = [''a''], word_freq = Map.empty, user_corrections = Map.empty,
          spell_added = [], spell_correction = (\<lambda>added word. None)\<rparr>"



definition c_none :: corrector where
  "c_none = \<lparr>dictionary = [], word_freq = Map.empty, user_corrections = Map.empty,
             spell_added = [], spell_correction = (\<lambda>added word. None)\<rparr>"

section \<open>Sets in any iteration order\<close>

lemma sort_key_nil_iff: "sort_key f xs = [] \<longleftrightarrow> xs = []"
  by (metis length_0_conv length_sort)

lemma set_order_set: "set_order ord \<Longrightarrow> set (ord xs) = set xs"
  by (simp add: set_order_def)

lemma set_order_distinct: "set_order ord \<Longrightarrow> distinct (ord xs)"
  by (simp add: set_order_def)

lemma set_order_nil: "set_order ord \<Longrightarrow> ord xs = [] \<longleftrightarrow> xs = []"
  using set_order_set [of ord xs] by (metis set_empty)

lemma set_order_remdups: "set_order remdups"
  by (simp add: set_order_def)

lemma singleton_list:
  assumes s: "set xs = {a}" and d: "distinct xs"
  shows "xs = [a]"
proof (cases xs)
  case Nil
  with s show ?thesis by simp
next
  case (Cons x ys)
  from s Cons have x: "x = a" by auto
  from s d Cons have "set ys \<subseteq> {a}" "a \<notin> set ys" by auto
  then have "ys = []" by (cases ys) auto
  with x Cons show ?thesis by simp
qed

section \<open>Strategy B\<close>

subsection \<open>The edits generated are the one-edit neighbourhood\<close>

lemma set_splits: "set (splits word) = {(L, R). L @ R = word}"
proof (intro set_eqI iffI)
  fix p assume "p \<in> set (splits word)"
  then show "p \<in> {(L, R). L @ R = word}" by (auto simp add: splits_def)
next
  fix p assume "p \<in> {(L, R). L @ R = word}"
  then obtain L R where p: "p = (L, R)" and w: "L @ R = word" by blast
  have a: "length L \<in> set [0 ..< length word + 1]" using w by auto
  have b: "p = (\<lambda>i. (take i word, drop i word)) (length L)" using w p by auto
  show "p \<in> set (splits word)" unfolding splits_def set_map using b a by (rule image_eqI)
qed

lemma set_deletes: "set (deletes word) = {xs @ ys | xs x ys. word = xs @ [x] @ ys}"
proof -
  have "set (deletes word) = {L @ drop 1 R | L R. L @ R = word \<and> R \<noteq> []}"
    unfolding deletes_def by (auto simp add: set_splits)
  also have "\<dots> = {xs @ ys | xs x ys. word = xs @ [x] @ ys}"
  proof (intro set_eqI iffI)
    fix e assume "e \<in> {L @ drop 1 R | L R. L @ R = word \<and> R \<noteq> []}"
    then obtain L R where e: "e = L @ drop 1 R" and w: "L @ R = word" and r: "R \<noteq> []" by blast
    from r obtain x ys where "R = x # ys" by (cases R) auto
    then have "e = L @ ys \<and> word = L @ [x] @ ys" using e w by simp
    then show "e \<in> {xs @ ys | xs x ys. word = xs @ [x] @ ys}" by blast
  next
    fix e assume "e \<in> {xs @ ys | xs x ys. word = xs @ [x] @ ys}"
    then obtain xs x ys where e: "e = xs @ ys" and w: "word = xs @ [x] @ ys" by blast
    have "e = xs @ drop 1 (x # ys) \<and> xs @ (x # ys) = word \<and> x # ys \<noteq> []" using e w by simp
    then show "e \<in> {L @ drop 1 R | L R. L @ R = word \<and> R \<noteq> []}" by blast
  qed
  finally show ?thesis .
qed

lemma set_transposes:
  "set (transposes word) = {xs @ [y, x] @ ys | xs x y ys. word = xs @ [x, y] @ ys}"
proof -
  have "set (transposes word) =
          {L @ [R ! 1] @ [R ! 0] @ drop 2 R | L R. L @ R = word \<and> length R > 1}"
    unfolding transposes_def by (auto simp add: set_splits)
  also have "\<dots> = {xs @ [y, x] @ ys | xs x y ys. word = xs @ [x, y] @ ys}"
  proof (intro set_eqI iffI)
    fix e assume "e \<in> {L @ [R ! 1] @ [R ! 0] @ drop 2 R | L R. L @ R = word \<and> length R > 1}"
    then obtain L R where e: "e = L @ [R ! 1] @ [R ! 0] @ drop 2 R" and w: "L @ R = word"
      and r: "length R > 1" by blast
    from r obtain x R' where R: "R = x # R'" by (cases R) auto
    with r obtain y ys where R': "R' = y # ys" by (cases R') auto
    have "e = L @ [y, x] @ ys \<and> word = L @ [x, y] @ ys" using e w R R' by simp
    then show "e \<in> {xs @ [y, x] @ ys | xs x y ys. word = xs @ [x, y] @ ys}" by blast
  next
    fix e assume "e \<in> {xs @ [y, x] @ ys | xs x y ys. word = xs @ [x, y] @ ys}"
    then obtain xs x y ys where e: "e = xs @ [y, x] @ ys" and w: "word = xs @ [x, y] @ ys"
      by blast
    let ?R = "x # y # ys"
    have "e = xs @ [?R ! 1] @ [?R ! 0] @ drop 2 ?R \<and> xs @ ?R = word \<and> length ?R > 1"
      using e w by simp
    then show "e \<in> {L @ [R ! 1] @ [R ! 0] @ drop 2 R | L R. L @ R = word \<and> length R > 1}"
      by blast
  qed
  finally show ?thesis .
qed

lemma set_replaces_letters:
  "set (replaces word) =
     {xs @ [l] @ ys | xs x ys l. word = xs @ [x] @ ys \<and> l \<in> set ascii_lowercase}"
proof -
  have "set (replaces word) =
          {L @ [l] @ drop 1 R | L R l. L @ R = word \<and> R \<noteq> [] \<and> l \<in> set ascii_lowercase}"
    unfolding replaces_def by (auto simp add: set_splits)
  also have "\<dots> = {xs @ [l] @ ys | xs x ys l. word = xs @ [x] @ ys \<and> l \<in> set ascii_lowercase}"
  proof (intro set_eqI iffI)
    fix e
    assume "e \<in> {L @ [l] @ drop 1 R | L R l. L @ R = word \<and> R \<noteq> [] \<and> l \<in> set ascii_lowercase}"
    then obtain L R l where e: "e = L @ [l] @ drop 1 R" and w: "L @ R = word" and r: "R \<noteq> []"
      and l: "l \<in> set ascii_lowercase" by blast
    from r obtain x ys where "R = x # ys" by (cases R) auto
    then have "e = L @ [l] @ ys \<and> word = L @ [x] @ ys \<and> l \<in> set ascii_lowercase"
      using e w l by simp
    then show "e \<in> {xs @ [l] @ ys | xs x ys l. word = xs @ [x] @ ys \<and> l \<in> set ascii_lowercase}"
      by blast
  next
    fix e
    assume "e \<in> {xs @ [l] @ ys | xs x ys l. word = xs @ [x] @ ys \<and> l \<in> set ascii_lowercase}"
    then obtain xs x ys l where e: "e = xs @ [l] @ ys" and w: "word = xs @ [x] @ ys"
      and l: "l \<in> set ascii_lowercase" by blast
    have "e = xs @ [l] @ drop 1 (x # ys) \<and> xs @ (x # ys) = word \<and> x # ys \<noteq> [] \<and>
          l \<in> set ascii_lowercase" using e w l by simp
    then show "e \<in> {L @ [l] @ drop 1 R | L R l.
                      L @ R = word \<and> R \<noteq> [] \<and> l \<in> set ascii_lowercase}" by blast
  qed
  finally show ?thesis .
qed

lemma set_inserts_letters:
  "set (inserts word) = {xs @ [l] @ ys | xs ys l. word = xs @ ys \<and> l \<in> set ascii_lowercase}"
  unfolding inserts_def by (auto simp add: set_splits)

lemma one_edit_code:
  "one_edit word = set (deletes word @ transposes word @ replaces word @ inserts word)"
  unfolding one_edit_def set_append set_deletes set_transposes
    set_replaces_letters [unfolded ascii_lowercase_def]
    set_inserts_letters [unfolded ascii_lowercase_def]
  by (simp only: Un_assoc)

lemma set_edits1: "set_order ord \<Longrightarrow> set (edits1 ord word) = one_edit word"
  by (simp add: edits1_def one_edit_code set_order_set)

lemma set_edits2: "set_order ord \<Longrightarrow> set (edits2 ord word) = two_edit word"
  by (simp add: edits2_def two_edit_def set_order_set set_edits1)

subsection \<open>The candidates\<close>

lemma norvig_set:
  assumes "set_order ord"
  shows "set (get_norvig_candidates ord c word 2) =
     (let D = set (dictionary c); K1 = one_edit word \<inter> D; K2 = two_edit word \<inter> D;
          W = {word} \<inter> D
      in if K1 \<noteq> {} then K1 \<union> W else if K2 \<union> W \<noteq> {} then K2 \<union> W else {word})"
proof -
  have f: "\<And>xs. set (filter (\<lambda>e. e \<in> set (dictionary c)) xs) = set xs \<inter> set (dictionary c)"
    by auto
  have n: "\<And>xs. (ord xs = []) = (set xs = {})"
    using assms by (simp add: set_order_nil)
  show ?thesis
    unfolding get_norvig_candidates_def Let_def
    by (auto simp add: sort_key_nil_iff n f set_order_set [OF assms] set_edits1 [OF assms]
          set_edits2 [OF assms] simp del: set_filter)
qed

lemma norvig_distinct:
  assumes "set_order ord"
  shows "distinct (get_norvig_candidates ord c word md)"
  unfolding get_norvig_candidates_def Let_def
  by (simp add: set_order_distinct [OF assms])

lemma norvig_sorted:
  "sorted (map (\<lambda>x. - freq_get c x) (get_norvig_candidates ord c word md))"
  unfolding get_norvig_candidates_def Let_def
  by simp

lemma norvig_fallback:
  assumes o: "set_order ord"
    and k1: "one_edit word \<inter> set (dictionary c) = {}"
    and k2: "two_edit word \<inter> set (dictionary c) = {}"
    and w: "word \<notin> set (dictionary c)"
  shows "get_norvig_candidates ord c word 2 = [word]"
proof -
  have "set (get_norvig_candidates ord c word 2) = {word}"
    using k1 k2 w by (simp add: norvig_set [OF o] Let_def)
  then show ?thesis
    by (rule singleton_list) (rule norvig_distinct [OF o])
qed

lemma norvig_single:
  assumes o: "set_order ord"
    and k1: "one_edit word \<inter> set (dictionary c) = {a}"
    and w: "word \<notin> set (dictionary c)"
  shows "get_norvig_candidates ord c word 2 = [a]"
proof -
  have "set (get_norvig_candidates ord c word 2) = {a}"
    using k1 w by (simp add: norvig_set [OF o] Let_def)
  then show ?thesis
    by (rule singleton_list) (rule norvig_distinct [OF o])
qed

lemma norvig_single_two:
  assumes o: "set_order ord"
    and k1: "one_edit word \<inter> set (dictionary c) = {}"
    and k2: "two_edit word \<inter> set (dictionary c) = {a}"
    and w: "word \<notin> set (dictionary c)"
  shows "get_norvig_candidates ord c word 2 = [a]"
proof -
  have "set (get_norvig_candidates ord c word 2) = {a}"
    using k1 k2 w by (simp add: norvig_set [OF o] Let_def)
  then show ?thesis
    by (rule singleton_list) (rule norvig_distinct [OF o])
qed

lemma teh_the: "''the'' \<in> one_edit ''teh''"
proof -
  have "''the'' \<in> set (transposes ''teh'')" by code_simp
  then show ?thesis by (simp add: one_edit_code)
qed

text \<open>
  C3. Strategy B with the default radius 2, against the one-edit neighbourhood as defined
  above (deletions, exchanges of adjacent characters, substitutions and insertions of
  lowercase letters): when some one-edit neighbour is in the dictionary, the result holds
  exactly those neighbours (and the word itself if it is a dictionary word), so nothing of
  the two-edit neighbourhood is added; when none is, it holds the two-edit neighbours that
  are in the dictionary; when nothing survives at either radius and the word is not in the
  dictionary, the result is \<open>[word]\<close>. The result has no duplicates and is ordered by
  descending frequency. For the dictionary \<open>{the}\<close> and the word \<open>teh\<close> the result is
  exactly \<open>[the]\<close>, found at radius 1.
\<close>

theorem norvig_candidates_radius:
  assumes "set_order ord"
  shows "let D = set (dictionary c); K1 = one_edit word \<inter> D; K2 = two_edit word \<inter> D;
             W = {word} \<inter> D; r = get_norvig_candidates ord c word 2
         in (K1 \<noteq> {} \<longrightarrow> set r = K1 \<union> W) \<and>
            (K1 = {} \<and> K2 \<union> W \<noteq> {} \<longrightarrow> set r = K2 \<union> W) \<and>
            (K1 = {} \<and> K2 = {} \<and> word \<notin> D \<longrightarrow> r = [word]) \<and>
            distinct r \<and> sorted (map (\<lambda>x. - freq_get c x) r) \<and>
            (D = {''the''} \<and> word = ''teh'' \<longrightarrow> K1 = {''the''} \<and> r = [''the''])"
proof -
  have inst: "get_norvig_candidates ord c ''teh'' 2 = [''the'']"
    and k: "one_edit ''teh'' \<inter> set (dictionary c) = {''the''}"
    if d: "set (dictionary c) = {''the''}"
  proof -
    show k: "one_edit ''teh'' \<inter> set (dictionary c) = {''the''}"
      using teh_the d by auto
    show "get_norvig_candidates ord c ''teh'' 2 = [''the'']"
      by (rule norvig_single [OF assms k]) (simp add: d)
  qed
  have fb: "get_norvig_candidates ord c word 2 = [word]"
    if "one_edit word \<inter> set (dictionary c) = {}" "two_edit word \<inter> set (dictionary c) = {}"
       "word \<notin> set (dictionary c)"
    using that by (rule norvig_fallback [OF assms])
  show ?thesis
    unfolding Let_def
    using inst k fb
    by (simp add: norvig_set [OF assms] Let_def norvig_distinct [OF assms] norvig_sorted)
qed

theorem norvig_candidates_radius_witness:
  "set_order remdups \<and> get_norvig_candidates remdups c_the ''teh'' 2 = [''the'']"
proof -
  have d: "set (dictionary c_the) = {''the''}" by (simp add: c_the_def)
  from norvig_candidates_radius [OF set_order_remdups, of c_the "''teh''"] d
  show ?thesis by (simp add: Let_def set_order_remdups)
qed

section \<open>The vote of \<open>correct_word\<close>\<close>

lemma vote3: "vote [e, a, b] = Inr (if a = b \<and> e \<noteq> a then a else e)"
  by (simp add: vote_def counter_def most_common_1_def)

lemma strip_nonempty: "strip s \<noteq> [] \<Longrightarrow> s \<noteq> []"
  by (auto simp add: strip_def)

lemma correct_word_vote:
  assumes "strip word0 \<noteq> []"
    and "strip (lower word0) \<notin> set (dictionary c)"
    and "user_corrections c (strip (lower word0)) = None"
  shows "correct_word ord c word0 =
           vote [or_word (spell_correction c (spell_added c) (strip (lower word0)))
                   (strip (lower word0)),
                 first_or (get_candidates c (strip (lower word0)) 2) (strip (lower word0)),
                 first_or (get_norvig_candidates ord c (strip (lower word0)) 2)
                   (strip (lower word0))]"
  using assms strip_nonempty [of word0] by (simp add: correct_word_def Let_def)


lemma plurality3:
  "let r = (if a = b \<and> e \<noteq> a then a else e)
   in r \<in> {e, a, b} \<and> (\<forall>x. count_list [e, a, b] x \<le> count_list [e, a, b] r) \<and>
      (e \<noteq> a \<and> e \<noteq> b \<and> a \<noteq> b \<longrightarrow> r = e) \<and> (a = b \<and> e \<noteq> a \<longrightarrow> r = a)"
  by (auto simp add: Let_def)

text \<open>
  C1. For a token that is not empty or blank and whose normal form is neither in the
  dictionary nor a key of the user corrections, \<open>correct_word\<close> returns the winner of
  three proposals: the external suggester's suggestion for the normal form (the normal
  form itself when it suggests nothing, or the empty string), the first word of Strategy
  A's list and the first word of Strategy B's list (the normal form for an empty list).
  The winner is one of the three and no proposal occurs more often; it is the external
  proposal unless Strategy A and Strategy B agree on another word, which then wins; so
  three pairwise distinct proposals give the external one.
\<close>

theorem correct_word_plurality_vote:
  assumes "strip word0 \<noteq> []"
    and "strip (lower word0) \<notin> set (dictionary c)"
    and "user_corrections c (strip (lower word0)) = None"
  shows "let word = strip (lower word0);
             ext = (case spell_correction c (spell_added c) word of
                      None \<Rightarrow> word | Some s \<Rightarrow> if s = [] then word else s);
             a = (case get_candidates c word 2 of [] \<Rightarrow> word | x # xs \<Rightarrow> x);
             b = (case get_norvig_candidates ord c word 2 of [] \<Rightarrow> word | x # xs \<Rightarrow> x)
         in \<exists>r. correct_word ord c word0 = Inr r \<and>
               r = (if a = b \<and> ext \<noteq> a then a else ext) \<and>
               r \<in> {ext, a, b} \<and>
               (\<forall>x. count_list [ext, a, b] x \<le> count_list [ext, a, b] r) \<and>
               (ext \<noteq> a \<and> ext \<noteq> b \<and> a \<noteq> b \<longrightarrow> r = ext) \<and>
               (a = b \<and> ext \<noteq> a \<longrightarrow> r = a)"
proof -
  define word where "word = strip (lower word0)"
  define ext where "ext = (case spell_correction c (spell_added c) word of
                      None \<Rightarrow> word | Some s \<Rightarrow> if s = [] then word else s)"
  define a where "a = (case get_candidates c word 2 of [] \<Rightarrow> word | x # xs \<Rightarrow> x)"
  define b where "b = (case get_norvig_candidates ord c word 2 of [] \<Rightarrow> word | x # xs \<Rightarrow> x)"
  have "correct_word ord c word0 = vote [ext, a, b]"
    unfolding correct_word_vote [OF assms] ext_def a_def b_def word_def or_word_def
      first_or_def by (rule refl)
  then have "correct_word ord c word0 = Inr (if a = b \<and> ext \<noteq> a then a else ext)"
    by (simp only: vote3)
  with plurality3 [of a b ext]
  have "\<exists>r. correct_word ord c word0 = Inr r \<and>
               r = (if a = b \<and> ext \<noteq> a then a else ext) \<and>
               r \<in> {ext, a, b} \<and>
               (\<forall>x. count_list [ext, a, b] x \<le> count_list [ext, a, b] r) \<and>
               (ext \<noteq> a \<and> ext \<noteq> b \<and> a \<noteq> b \<longrightarrow> r = ext) \<and>
               (a = b \<and> ext \<noteq> a \<longrightarrow> r = a)"
    unfolding Let_def by blast
  then show ?thesis unfolding Let_def ext_def a_def b_def word_def .
qed

theorem correct_word_plurality_vote_witness:
  "correct_word remdups c_vote ''Teh '' = Inr ''tea''"
proof -
  have n: "strip (lower ''Teh '') = ''teh''" by code_simp
  have h1: "strip ''Teh '' \<noteq> []" by code_simp
  have h2: "strip (lower ''Teh '') \<notin> set (dictionary c_vote)" by (simp add: n c_vote_def)
  have h3: "user_corrections c_vote (strip (lower ''Teh '')) = None" by (simp add: c_vote_def)
  have a: "get_candidates c_vote ''teh'' 2 = [''them'', ''the'']" by code_simp
  have "''them'' \<notin> set (deletes ''teh'' @ transposes ''teh'' @ replaces ''teh'' @ inserts ''teh'')"
    by code_simp
  then have "''them'' \<notin> one_edit ''teh''" unfolding one_edit_code .
  then have k: "one_edit ''teh'' \<inter> set (dictionary c_vote) = {''the''}"
    using teh_the by (auto simp add: c_vote_def)
  have b: "get_norvig_candidates remdups c_vote ''teh'' 2 = [''the'']"
    by (rule norvig_single [OF set_order_remdups k]) (simp add: c_vote_def)
  have e: "spell_correction c_vote (spell_added c_vote) ''teh'' = Some ''tea''"
    by (simp add: c_vote_def)
  from correct_word_plurality_vote [OF h1 h2 h3, of remdups]
  show ?thesis by (simp add: Let_def n a b e)
qed

text \<open>
  C10. When Strategy A finds no candidate for such a token, \<open>correct_word\<close> does not
  fail: the token's normal form stands in as Strategy A's proposal in the vote, and a word
  is returned.
\<close>

theorem correct_word_empty_strategy_a:
  assumes "strip word0 \<noteq> []"
    and "strip (lower word0) \<notin> set (dictionary c)"
    and "user_corrections c (strip (lower word0)) = None"
    and "get_candidates c (strip (lower word0)) 2 = []"
  shows "let word = strip (lower word0);
             ext = or_word (spell_correction c (spell_added c) word) word;
             b = first_or (get_norvig_candidates ord c word 2) word
         in correct_word ord c word0 = vote [ext, word, b] \<and>
            (\<exists>r. correct_word ord c word0 = Inr r \<and> r \<in> {ext, word, b})"
  unfolding Let_def correct_word_vote [OF assms(1-3)] vote3
  by (simp add: assms(4) first_or_def)

theorem correct_word_empty_strategy_a_witness:
  "get_candidates c_far ''xy'' 2 = [] \<and> (\<exists>r. correct_word remdups c_far ''XY'' = Inr r)"
proof -
  have n: "strip (lower ''XY'') = ''xy''" by code_simp
  have h1: "strip ''XY'' \<noteq> []" by code_simp
  have h2: "strip (lower ''XY'') \<notin> set (dictionary c_far)" by (simp add: n c_far_def)
  have h3: "user_corrections c_far (strip (lower ''XY'')) = None" by (simp add: c_far_def)
  have a: "get_candidates c_far ''xy'' 2 = []" by code_simp
  have h4: "get_candidates c_far (strip (lower ''XY'')) 2 = []" by (simp add: n a)
  have "\<exists>r. correct_word remdups c_far ''XY'' = Inr r"
    using correct_word_empty_strategy_a [OF h1 h2 h3 h4, of remdups]
    unfolding Let_def by blast
  with a show ?thesis by simp
qed

section \<open>Dictionary words and user corrections\<close>

lemma one_edit_chars:
  assumes "e \<in> one_edit word"
  shows "set e \<subseteq> set word \<union> set ascii_lowercase"
  using assms unfolding one_edit_def ascii_lowercase_def by auto

lemma two_edit_chars:
  assumes "e \<in> two_edit word"
  shows "set e \<subseteq> set word \<union> set ascii_lowercase"
proof -
  from assms obtain d where d: "d \<in> one_edit word" and e: "e \<in> one_edit d"
    by (auto simp add: two_edit_def)
  from one_edit_chars [OF d] one_edit_chars [OF e] show ?thesis by blast
qed

subsection \<open>The normal form \<open>word.lower().strip()\<close>\<close>

lemma isspace_lower_char: "isspace_char (lower_char ch) = isspace_char ch"
  by (auto simp add: isspace_char_def lower_char_def code_point_def Let_def)

lemma lower_char_idem: "lower_char (lower_char ch) = lower_char ch"
  by (auto simp add: lower_char_def code_point_def Let_def)

lemma lower_idem: "lower (lower s) = lower s"
  by (simp add: lower_def lower_char_idem)

lemma lower_strip: "lower (strip s) = strip (lower s)"
proof -
  have c: "isspace_char \<circ> lower_char = isspace_char"
    by (rule ext) (simp add: isspace_lower_char)
  show ?thesis
    by (simp add: lower_def strip_def dropWhile_map rev_map c)
qed

lemma strip_ends:
  "strip s = [] \<or> (\<not> isspace_char (hd (strip s)) \<and> \<not> isspace_char (last (strip s)))"
proof (cases "strip s = []")
  case True
  then show ?thesis by simp
next
  case False
  let ?t = "dropWhile isspace_char s"
  let ?u = "strip s"
  have ru: "rev ?u = dropWhile isspace_char (rev ?t)" by (simp add: strip_def)
  with False have "\<not> isspace_char (hd (rev ?u))"
    by (metis hd_dropWhile rev_is_Nil_conv)
  then have l: "\<not> isspace_char (last ?u)" using False by (simp add: hd_rev)
  have "rev ?t = takeWhile isspace_char (rev ?t) @ rev ?u"
    using ru by simp
  then have "?t = ?u @ rev (takeWhile isspace_char (rev ?t))"
    by (metis rev_append rev_rev_ident)
  then have hu: "hd ?t = hd ?u" and tn: "?t \<noteq> []" using False
    by (metis hd_append2, metis append_is_Nil_conv)
  from tn have "\<not> isspace_char (hd ?t)" by (rule hd_dropWhile)
  with hu l show ?thesis by simp
qed

lemma dropWhile_id: "xs = [] \<or> \<not> P (hd xs) \<Longrightarrow> dropWhile P xs = xs"
  by (cases xs) auto

lemma strip_Nil: "strip [] = []"
  by (simp add: strip_def)

lemma strip_idem: "strip (strip s) = strip s"
proof (cases "strip s = []")
  case True
  then show ?thesis by (simp add: strip_Nil)
next
  case False
  with strip_ends [of s] have h: "\<not> isspace_char (hd (strip s))"
    and l: "\<not> isspace_char (last (strip s))" by auto
  have a: "dropWhile isspace_char (strip s) = strip s"
    using h by (simp add: dropWhile_id)
  have b: "dropWhile isspace_char (rev (strip s)) = rev (strip s)"
    using l False by (simp add: dropWhile_id hd_rev)
  show ?thesis
    unfolding strip_def [of "strip s"] a b by simp
qed

lemma normal_idem: "strip (lower (strip (lower s))) = strip (lower s)"
  by (metis lower_strip lower_idem strip_idem)

lemma strip_lower_nonempty: "strip (lower s) = [] \<longleftrightarrow> strip s = []"
  by (metis lower_strip lower_def map_is_Nil_conv)


subsection \<open>Words of the dictionary\<close>

text \<open>
  A dictionary word that is its own normal form (lower case, no white space at either end)
  is a fixed point of \<open>correct_word\<close>, whatever the user corrections, the frequencies
  and the external suggester are: the result is decided by the dictionary test alone.
  \<open>load_custom_dictionary\<close>, \<open>add_to_dictionary\<close> and \<open>add_user_correction\<close>
  insert words in lower case only.
\<close>

lemma correct_word_fixed_point:
  assumes "w \<in> set (dictionary c)" and "strip (lower w) = w"
  shows "correct_word ord c w = Inr w \<and>
         (\<forall>u f a s. correct_word ord
            (c\<lparr>word_freq := f, user_corrections := u, spell_added := a,
               spell_correction := s\<rparr>) w = Inr w)"
  using assms by (simp add: correct_word_def Let_def)

lemma add_to_dictionary_normal:
  assumes "set_order ord"
  shows "set (dictionary (add_to_dictionary ord c w f)) =
           insert (strip (lower w)) (set (dictionary c)) \<and>
         strip (lower (strip (lower w))) = strip (lower w)"
  by (simp add: add_to_dictionary_def Let_def normal_idem set_order_set [OF assms])

text \<open>
  C8. \<open>__init__\<close> stores the word list as it is, capitalised entries included, and
  \<open>correct_word\<close> looks up the normal form of its argument. With the capitalised word
  \<open>Aaron\<close> in the dictionary, \<open>correct_word\<close> does not return it: its lower-case form
  is not a dictionary word, and the vote over that form, the Strategy A candidate
  \<open>Aaron\<close> and the Strategy B fallback returns the lower-case form.
\<close>

theorem correct_word_capitalised_entry:
  "''Aaron'' \<in> set (dictionary c_aaron) \<and>
   correct_word remdups c_aaron ''Aaron'' = Inr ''aaron'' \<and>
   correct_word remdups c_aaron ''Aaron'' \<noteq> Inr ''Aaron''"
proof -
  have n: "strip (lower ''Aaron'') = ''aaron''" by code_simp
  have h1: "strip ''Aaron'' \<noteq> []" by code_simp
  have h2: "strip (lower ''Aaron'') \<notin> set (dictionary c_aaron)" by (simp add: n c_aaron_def)
  have h3: "user_corrections c_aaron (strip (lower ''Aaron'')) = None"
    by (simp add: c_aaron_def)
  have a: "get_candidates c_aaron ''aaron'' 2 = [''Aaron'']" by code_simp
  have up: "CHR ''A'' \<notin> set ''aaron'' \<union> set ascii_lowercase"
    by (simp add: ascii_lowercase_def)
  have k1: "one_edit ''aaron'' \<inter> set (dictionary c_aaron) = {}"
    using one_edit_chars [of "''Aaron''" "''aaron''"] up by (auto simp add: c_aaron_def)
  have k2: "two_edit ''aaron'' \<inter> set (dictionary c_aaron) = {}"
    using two_edit_chars [of "''Aaron''" "''aaron''"] up by (auto simp add: c_aaron_def)
  have b: "get_norvig_candidates remdups c_aaron ''aaron'' 2 = [''aaron'']"
    by (rule norvig_fallback [OF set_order_remdups k1 k2]) (simp add: c_aaron_def)
  have e: "spell_correction c_aaron (spell_added c_aaron) ''aaron'' = None"
    by (simp add: c_aaron_def)
  have "correct_word remdups c_aaron ''Aaron'' = Inr ''aaron''"
    unfolding correct_word_vote [OF h1 h2 h3] vote3
    by (simp add: n a b e or_word_def first_or_def)
  then show ?thesis by (simp add: c_aaron_def)
qed

subsection \<open>User corrections\<close>

lemma add_user_correction_dictionary:
  assumes "set_order ord"
  shows "set (dictionary (add_user_correction ord c m r)) =
           insert (strip (lower r)) (set (dictionary c))"
  by (auto simp add: add_user_correction_def add_to_dictionary_def Let_def normal_idem
        set_order_set [OF assms])

lemma add_user_correction_map:
  "user_corrections (add_user_correction ord c m r) =
     (user_corrections c)(strip (lower m) \<mapsto> strip (lower r))"
  by (simp add: add_user_correction_def add_to_dictionary_def Let_def)

lemma dictionary_update_other [simp]:
  "dictionary (c\<lparr>word_freq := f, spell_added := a, spell_correction := s\<rparr>) = dictionary c"
  by simp


text \<open>
  C4, as stated, fails: the dictionary test comes before the user corrections, so for a
  misspelling that is itself in the dictionary the correction is not returned.
\<close>

theorem user_correction_counterexample:
  "correct_word remdups (add_user_correction remdups c_teh ''teh'' ''the'') ''teh'' = Inr ''teh''"
  by code_simp

text \<open>
  C4, amended. After \<open>add_user_correction\<close> of a misspelling that is not blank and whose
  normal form is not in the dictionary, \<open>correct_word\<close> on the misspelling returns the
  normal form of the given correction, whatever Strategy A, Strategy B and the external
  suggester would propose: the result does not change when the frequencies and the
  suggester are replaced. When the normal form of the misspelling is in the dictionary,
  that normal form is returned; a blank misspelling is returned as it is.
\<close>

theorem user_correction_overrides:
  assumes "set_order ord"
  shows "let c' = add_user_correction ord c m r;
             word = strip (lower m);
             correction = strip (lower r)
         in (strip m \<noteq> [] \<and> word \<notin> set (dictionary c) \<longrightarrow>
               correct_word ord c' m = Inr correction \<and>
               (\<forall>f a s. correct_word ord
                  (c'\<lparr>word_freq := f, spell_added := a, spell_correction := s\<rparr>) m =
                    Inr correction)) \<and>
            (strip m \<noteq> [] \<and> word \<in> set (dictionary c) \<longrightarrow> correct_word ord c' m = Inr word) \<and>
            (strip m = [] \<longrightarrow> correct_word ord c' m = Inr m)"
proof -
  let ?c = "add_user_correction ord c m r"
  have d: "set (dictionary ?c) = insert (strip (lower r)) (set (dictionary c))"
    by (rule add_user_correction_dictionary [OF assms])
  have u: "user_corrections ?c (strip (lower m)) = Some (strip (lower r))"
    by (simp add: add_user_correction_map)
  have blank: "correct_word ord ?c m = Inr m" if "strip m = []"
    using that by (simp add: correct_word_def)
  have known: "correct_word ord ?c m = Inr (strip (lower m))"
    if "strip m \<noteq> []" "strip (lower m) \<in> set (dictionary c)"
    using that strip_nonempty [of m] by (simp add: correct_word_def Let_def d)
  have other: "correct_word ord (?c\<lparr>word_freq := f, spell_added := a, spell_correction := s\<rparr>) m =
                 Inr (strip (lower r))"
    if "strip m \<noteq> []" "strip (lower m) \<notin> set (dictionary c)" for f a s
    using that strip_nonempty [of m] by (auto simp add: correct_word_def Let_def d u)
  have same: "correct_word ord ?c m = Inr (strip (lower r))"
    if "strip m \<noteq> []" "strip (lower m) \<notin> set (dictionary c)"
    using that strip_nonempty [of m] by (auto simp add: correct_word_def Let_def d u)
  show ?thesis unfolding Let_def using blank known other same by blast
qed

theorem user_correction_overrides_witness:
  "correct_word remdups c_the ''teh'' = Inr ''the'' \<and>
   correct_word remdups (add_user_correction remdups c_the ''teh'' ''Zebra'') ''teh'' =
     Inr ''zebra''"
proof -
  have h2: "strip ''teh'' \<noteq> []" by code_simp
  have h3: "strip (lower ''teh'') \<notin> set (dictionary c_the)" by code_simp
  have n: "strip (lower ''Zebra'') = ''zebra''" by code_simp
  have nt: "strip (lower ''teh'') = ''teh''" by code_simp
  have a: "get_candidates c_the ''teh'' 2 = [''the'']" by code_simp
  have k: "one_edit ''teh'' \<inter> set (dictionary c_the) = {''the''}"
    using teh_the by (auto simp add: c_the_def)
  have b: "get_norvig_candidates remdups c_the ''teh'' 2 = [''the'']"
    by (rule norvig_single [OF set_order_remdups k]) (simp add: c_the_def)
  have h4: "user_corrections c_the (strip (lower ''teh'')) = None" by (simp add: c_the_def)
  have e: "spell_correction c_the (spell_added c_the) ''teh'' = None" by (simp add: c_the_def)
  have before: "correct_word remdups c_the ''teh'' = Inr ''the''"
    unfolding correct_word_vote [OF h2 h3 h4] vote3
    by (simp add: nt a b e or_word_def first_or_def)
  from user_correction_overrides [OF set_order_remdups, of c_the "''teh''" "''Zebra''"] h2 h3 n
  have "correct_word remdups (add_user_correction remdups c_the ''teh'' ''Zebra'') ''teh'' =
          Inr ''zebra''"
    unfolding Let_def by simp
  with before show ?thesis by simp
qed

section \<open>Strategy A\<close>

subsection \<open>The rows computed are the Levenshtein distances of the prefixes\<close>

lemma lev_zero_right: "lev a b i 0 = i"
  by (cases i) simp_all

lemma lev_sym: "lev a b i j = lev b a j i"
proof (induction a b i j rule: lev.induct)
  case (1 a b j)
  then show ?case by (simp add: lev_zero_right)
next
  case (2 a b i)
  then show ?case by simp
next
  case (3 a b i j)
  then show ?case by (simp add: min.commute min.left_commute eq_commute)
qed

lemma row_fold:
  assumes "k \<le> length b"
  shows "fold (row_step (a ! i) (map (lev a b i) [0 ..< length b + 1]))
           (take k (enumerate 0 b)) [i + 1] = map (lev a b (Suc i)) [0 ..< k + 1]"
  using assms
proof (induction k)
  case 0
  then show ?case by simp
next
  case (Suc k)
  let ?prev = "map (lev a b i) [0 ..< length b + 1]"
  let ?cur = "map (lev a b (Suc i)) [0 ..< k + 1]"
  have k: "k < length b" using Suc.prems by simp
  have t: "take (Suc k) (enumerate 0 b) = take k (enumerate 0 b) @ [(k, b ! k)]"
    using k by (simp add: take_Suc_conv_app_nth nth_enumerate_eq)
  have p1: "?prev ! (k + 1) = lev a b i (Suc k)" using k by (simp del: upt_Suc)
  have p0: "?prev ! k = lev a b i k" using k by (simp del: upt_Suc)
  have c0: "?cur ! k = lev a b (Suc i) k" by (simp del: upt_Suc)
  have "fold (row_step (a ! i) ?prev) (take (Suc k) (enumerate 0 b)) [i + 1] =
          row_step (a ! i) ?prev (k, b ! k) ?cur"
    using Suc.IH k by (simp add: t)
  also have "\<dots> = ?cur @ [lev a b (Suc i) (Suc k)]"
    unfolding row_step_def Let_def prod.case p1 p0 c0 by simp
  also have "\<dots> = map (lev a b (Suc i)) [0 ..< Suc k + 1]" by simp
  finally show ?case .
qed

lemma next_row_lev:
  "next_row b (i, a ! i) (map (lev a b i) [0 ..< length b + 1]) =
     map (lev a b (Suc i)) [0 ..< length b + 1]"
  using row_fold [of "length b" b a i] by (simp add: next_row_def)

lemma rows_fold:
  assumes "k \<le> length a"
  shows "fold (next_row b) (take k (enumerate 0 a)) [0 ..< length b + 1] =
           map (lev a b k) [0 ..< length b + 1]"
  using assms
proof (induction k)
  case 0
  have "lev a b 0 = (\<lambda>j. j)" by (rule ext) simp
  then show ?case by simp
next
  case (Suc k)
  have k: "k < length a" using Suc.prems by simp
  have t: "take (Suc k) (enumerate 0 a) = take k (enumerate 0 a) @ [(k, a ! k)]"
    using k by (simp add: take_Suc_conv_app_nth nth_enumerate_eq)
  have "fold (next_row b) (take (Suc k) (enumerate 0 a)) [0 ..< length b + 1] =
          next_row b (k, a ! k) (map (lev a b k) [0 ..< length b + 1])"
    using Suc.IH k by (simp add: t)
  then show ?case by (simp only: next_row_lev)
qed

lemma lev_rows_lev: "lev_rows a b = map (lev a b (length a)) [0 ..< length b + 1]"
  using rows_fold [of "length a" a b] by (simp add: lev_rows_def)

lemma last_lev_rows: "last (lev_rows a b) = lev a b (length a) (length b)"
  by (simp add: lev_rows_lev)

lemma calculate_levenshtein_distance_lev:
  "calculate_levenshtein_distance word1 word2 = levenshtein word1 word2"
proof (cases "length word1 < length word2")
  case True
  have "calculate_levenshtein_distance word1 word2 =
          (if length word1 = 0 then length word2 else last (lev_rows word2 word1))"
    using True by (simp add: calculate_levenshtein_distance_def)
  also have "\<dots> = lev word2 word1 (length word2) (length word1)"
    by (simp add: last_lev_rows lev_zero_right)
  also have "\<dots> = levenshtein word1 word2" by (simp add: levenshtein_def lev_sym)
  finally show ?thesis .
next
  case False
  have "calculate_levenshtein_distance word1 word2 =
          (if length word2 = 0 then length word1 else last (lev_rows word1 word2))"
    using False by (simp add: calculate_levenshtein_distance_def)
  also have "\<dots> = lev word1 word2 (length word1) (length word2)"
    by (simp add: last_lev_rows lev_zero_right)
  finally show ?thesis by (simp add: levenshtein_def)
qed


subsection \<open>The candidates\<close>

lemma three_list:
  assumes "distinct xs" and "set xs = {a, b, c}" and "a \<noteq> b" and "a \<noteq> c" and "b \<noteq> c"
  shows "\<exists>x y z. xs = [x, y, z]"
proof -
  have "length xs = card (set xs)" using assms(1) by (simp add: distinct_card)
  also have "\<dots> = card {a, b, c}" using assms(2) by simp
  also have "\<dots> = 3" using assms(3-5) by simp
  finally have "length xs = Suc (Suc (Suc 0))" by simp
  then show ?thesis by (simp add: length_Suc_conv) blast
qed

lemma sorted_pairs:
  "sorted (map f xs) \<Longrightarrow> i < j \<Longrightarrow> j < length xs \<Longrightarrow> f (xs ! i) \<le> f (xs ! j)"
  using sorted_nth_mono [of "map f xs" i j] by simp

lemma get_candidates_known:
  "word \<in> set (dictionary c) \<Longrightarrow> get_candidates c word max_distance = [word]"
  by (simp add: get_candidates_def)

lemma get_candidates_set:
  "word \<notin> set (dictionary c) \<Longrightarrow>
   set (get_candidates c word max_distance) =
     {d \<in> set (dictionary c). int (levenshtein word d) \<le> max_distance}"
  by (auto simp add: get_candidates_def Let_def image_iff calculate_levenshtein_distance_lev)

lemma get_candidates_keys:
  assumes "word \<notin> set (dictionary c)"
  shows "sorted (map (\<lambda>d. (levenshtein word d, - freq_get c d))
                   (get_candidates c word max_distance))"
proof -
  let ?k = "\<lambda>x. (snd x, - freq_get c (fst x))"
  let ?g = "\<lambda>d. (levenshtein word d, - freq_get c d)"
  let ?xs = "filter (\<lambda>p. int (snd p) \<le> max_distance)
               (map (\<lambda>dict_word. (dict_word, calculate_levenshtein_distance word dict_word))
                  (dictionary c))"
  have p: "\<forall>p \<in> set (sort_key ?k ?xs). ?g (fst p) = ?k p"
    by (auto simp add: calculate_levenshtein_distance_lev)
  have "map ?g (map fst (sort_key ?k ?xs)) = map (\<lambda>p. ?g (fst p)) (sort_key ?k ?xs)"
    by (simp only: map_map comp_def)
  also have "\<dots> = map ?k (sort_key ?k ?xs)"
    using p by (intro map_cong) (rule refl, blast)
  finally have "map ?g (map fst (sort_key ?k ?xs)) = map ?k (sort_key ?k ?xs)" .
  moreover have "sorted (map ?k (sort_key ?k ?xs))" by (rule sorted_sort_key)
  ultimately have "sorted (map ?g (map fst (sort_key ?k ?xs)))" by (simp only:)
  then show ?thesis using assms by (simp only: get_candidates_def Let_def if_False)
qed

lemma get_candidates_distinct:
  assumes "distinct (dictionary c)"
  shows "distinct (get_candidates c word max_distance)"
proof (cases "word \<in> set (dictionary c)")
  case True
  then show ?thesis by (simp add: get_candidates_def)
next
  case False
  let ?k = "\<lambda>x. (snd x, - freq_get c (fst x))"
  let ?xs = "filter (\<lambda>p. int (snd p) \<le> max_distance)
               (map (\<lambda>dict_word. (dict_word, calculate_levenshtein_distance word dict_word))
                  (dictionary c))"
  have i: "inj_on fst (set ?xs)" by (auto simp add: inj_on_def)
  have d: "distinct ?xs" using assms by (simp add: distinct_map inj_on_def)
  have "distinct (map fst (sort_key ?k ?xs))"
    using i d by (simp only: distinct_map distinct_sort set_sort)
  then show ?thesis using False by (simp only: get_candidates_def Let_def if_False)
qed


lemma helo_distances:
  "levenshtein ''helo'' ''hello'' = 1"
  "levenshtein ''helo'' ''help'' = 1"
  "levenshtein ''helo'' ''hold'' = 2"
  by code_simp+

lemma helo_candidates:
  assumes "set (dictionary c) = {''hello'', ''help'', ''hold''}" and "distinct (dictionary c)"
  shows "\<exists>x y. get_candidates c ''helo'' 2 = [x, y, ''hold''] \<and> {x, y} = {''hello'', ''help''} \<and>
               freq_get c y \<le> freq_get c x"
proof -
  let ?r = "get_candidates c ''helo'' 2"
  let ?d = "levenshtein ''helo''"
  let ?k = "\<lambda>d. (?d d, - freq_get c d)"
  have n: "''helo'' \<notin> set (dictionary c)" by (simp add: assms(1))
  have "set ?r = {d \<in> set (dictionary c). int (?d d) \<le> 2}"
    using n by (rule get_candidates_set)
  also have "\<dots> = {''hello'', ''help'', ''hold''}"
    unfolding assms(1) using helo_distances by auto
  finally have s: "set ?r = {''hello'', ''help'', ''hold''}" .
  have d: "distinct ?r" using assms(2) by (rule get_candidates_distinct)
  have "\<exists>x y z. ?r = [x, y, z]" by (rule three_list [OF d s]) simp_all
  then obtain x y z where r: "?r = [x, y, z]" by blast
  have k: "sorted (map ?k ?r)" using n by (rule get_candidates_keys)
  have xy: "?k x \<le> ?k y" and yz: "?k y \<le> ?k z" using k unfolding r by simp_all
  have e: "{x, y, z} = {''hello'', ''help'', ''hold''}" using s unfolding r by simp
  have dd: "x \<noteq> y" "x \<noteq> z" "y \<noteq> z" using d unfolding r by simp_all
  have mem: "?d z \<le> 1 \<Longrightarrow> ?d x \<le> 1 \<and> ?d y \<le> 1"
    using xy yz by (auto simp add: less_eq_prod_def)
  have hx: "''hold'' \<in> {x, y, z}" unfolding e by simp
  have z: "z = ''hold''"
  proof (rule ccontr)
    assume nz: "z \<noteq> ''hold''"
    have "z \<in> {''hello'', ''help'', ''hold''}" using e by blast
    then have "z = ''hello'' \<or> z = ''help''" using nz by simp
    then have "?d z \<le> 1" using helo_distances by auto
    then have "?d x \<le> 1 \<and> ?d y \<le> 1" by (rule mem)
    moreover have "x = ''hold'' \<or> y = ''hold''" using hx nz by simp blast
    ultimately show False using helo_distances(3) by auto
  qed
  have "x \<in> {''hello'', ''help'', ''hold''}" "y \<in> {''hello'', ''help'', ''hold''}"
    using e by blast+
  then have xm: "x = ''hello'' \<or> x = ''help''" and ym: "y = ''hello'' \<or> y = ''help''"
    using dd z by simp_all
  have "''hello'' \<in> {x, y, z}" "''help'' \<in> {x, y, z}" unfolding e by simp_all
  then have "''hello'' \<in> {x, y}" "''help'' \<in> {x, y}" unfolding z by simp_all
  then have xyset: "{x, y} = {''hello'', ''help''}" using xm ym by blast
  have "?d x = 1 \<and> ?d y = 1" using xm ym helo_distances by auto
  then have "freq_get c y \<le> freq_get c x" using xy by (simp add: less_eq_prod_def)
  then show ?thesis using r z xyset by simp
qed


text \<open>
  C5, as stated, fails in its instance: \<open>help\<close> is at distance 1 from \<open>helo\<close>, as
  \<open>hello\<close> is, so the two are ordered by frequency; with \<open>help\<close> the more frequent
  word, \<open>hello\<close> is not ranked before it.
\<close>

theorem strategy_a_helo_counterexample:
  "set (dictionary c_help) = {''hello'', ''help'', ''hold''} \<and>
   get_candidates c_help ''helo'' 2 = [''help'', ''hello'', ''hold''] \<and>
   \<not> ranked_before ''hello'' ''help'' (get_candidates c_help ''helo'' 2)"
  by code_simp

text \<open>
  C5, amended. For a word of the dictionary Strategy A returns that word alone. For a word
  outside it the result holds exactly the dictionary words within the threshold in
  Levenshtein distance, in ascending order of distance and, at equal distance, in
  descending order of frequency, where a word without a frequency counts as 0: after
  such a word, at its distance, only words of frequency 0 or less follow. A dictionary
  without duplicates gives a result without duplicates. For the dictionary
  \<open>{hello, help, hold}\<close>, the word \<open>helo\<close> and threshold 2, \<open>hello\<close> and \<open>help\<close>
  are at distance 1 and \<open>hold\<close> at distance 2: the result holds the three words,
  \<open>hold\<close> last, and of the first two the second is not the more frequent.
\<close>

theorem get_candidates_ranked:
  "let r = get_candidates c word max_distance;
       dist = levenshtein word
   in (word \<in> set (dictionary c) \<longrightarrow> r = [word]) \<and>
      (word \<notin> set (dictionary c) \<longrightarrow>
         set r = {d \<in> set (dictionary c). int (dist d) \<le> max_distance} \<and>
         sorted (map (\<lambda>d. (dist d, - freq_get c d)) r) \<and>
         (\<forall>i j. i < j \<and> j < length r \<longrightarrow>
            dist (r ! i) < dist (r ! j) \<or>
            dist (r ! i) = dist (r ! j) \<and> freq_get c (r ! j) \<le> freq_get c (r ! i)) \<and>
         (\<forall>i j. i < j \<and> j < length r \<and> word_freq c (r ! i) = None \<and>
                dist (r ! i) = dist (r ! j) \<longrightarrow> freq_get c (r ! j) \<le> 0)) \<and>
      (distinct (dictionary c) \<longrightarrow> distinct r) \<and>
      (set (dictionary c) = {''hello'', ''help'', ''hold''} \<and> distinct (dictionary c) \<and>
       word = ''helo'' \<and> max_distance = 2 \<longrightarrow>
         dist ''hello'' = 1 \<and> dist ''help'' = 1 \<and> dist ''hold'' = 2 \<and>
         (\<exists>x y. r = [x, y, ''hold''] \<and> {x, y} = {''hello'', ''help''} \<and>
                freq_get c y \<le> freq_get c x))"
proof -
  let ?r = "get_candidates c word max_distance"
  let ?d = "levenshtein word"
  let ?k = "\<lambda>d. (?d d, - freq_get c d)"
  have pair: "?d (?r ! i) < ?d (?r ! j) \<or>
              ?d (?r ! i) = ?d (?r ! j) \<and> freq_get c (?r ! j) \<le> freq_get c (?r ! i)"
    if "word \<notin> set (dictionary c)" "i < j" "j < length ?r" for i j
  proof -
    have "sorted (map ?k ?r)" using that(1) by (rule get_candidates_keys)
    then have "?k (?r ! i) \<le> ?k (?r ! j)" using that(2,3) by (rule sorted_pairs)
    then show ?thesis by (auto simp add: less_eq_prod_def)
  qed
  have unk: "freq_get c (?r ! j) \<le> 0"
    if "word \<notin> set (dictionary c)" "i < j" "j < length ?r" "word_freq c (?r ! i) = None"
       "?d (?r ! i) = ?d (?r ! j)" for i j
    using pair [OF that(1-3)] that(4,5) by (simp add: freq_get_def)
  have c1: "word \<in> set (dictionary c) \<longrightarrow> ?r = [word]"
    by (simp add: get_candidates_known)
  have c2: "word \<notin> set (dictionary c) \<longrightarrow>
         set ?r = {d \<in> set (dictionary c). int (?d d) \<le> max_distance} \<and>
         sorted (map ?k ?r) \<and>
         (\<forall>i j. i < j \<and> j < length ?r \<longrightarrow>
            ?d (?r ! i) < ?d (?r ! j) \<or>
            ?d (?r ! i) = ?d (?r ! j) \<and> freq_get c (?r ! j) \<le> freq_get c (?r ! i)) \<and>
         (\<forall>i j. i < j \<and> j < length ?r \<and> word_freq c (?r ! i) = None \<and>
                ?d (?r ! i) = ?d (?r ! j) \<longrightarrow> freq_get c (?r ! j) \<le> 0)"
  proof (intro impI conjI allI)
    assume n: "word \<notin> set (dictionary c)"
    show "set ?r = {d \<in> set (dictionary c). int (?d d) \<le> max_distance}"
      using n by (rule get_candidates_set)
    show "sorted (map ?k ?r)" using n by (rule get_candidates_keys)
    show "?d (?r ! i) < ?d (?r ! j) \<or>
            ?d (?r ! i) = ?d (?r ! j) \<and> freq_get c (?r ! j) \<le> freq_get c (?r ! i)"
      if "i < j \<and> j < length ?r" for i j
      using pair [OF n, of i j] that by simp
    show "freq_get c (?r ! j) \<le> 0"
      if "i < j \<and> j < length ?r \<and> word_freq c (?r ! i) = None \<and> ?d (?r ! i) = ?d (?r ! j)"
      for i j
      using unk [OF n, of i j] that by simp
  qed
  have c3: "distinct (dictionary c) \<longrightarrow> distinct ?r"
    by (simp add: get_candidates_distinct)
  have c4: "set (dictionary c) = {''hello'', ''help'', ''hold''} \<and> distinct (dictionary c) \<and>
       word = ''helo'' \<and> max_distance = 2 \<longrightarrow>
         ?d ''hello'' = 1 \<and> ?d ''help'' = 1 \<and> ?d ''hold'' = 2 \<and>
         (\<exists>x y. ?r = [x, y, ''hold''] \<and> {x, y} = {''hello'', ''help''} \<and>
                freq_get c y \<le> freq_get c x)"
  proof (intro impI)
    assume h: "set (dictionary c) = {''hello'', ''help'', ''hold''} \<and> distinct (dictionary c) \<and>
       word = ''helo'' \<and> max_distance = 2"
    then have s: "set (dictionary c) = {''hello'', ''help'', ''hold''}"
      and d: "distinct (dictionary c)" and w: "word = ''helo''" and m: "max_distance = 2"
      by simp_all
    show "?d ''hello'' = 1 \<and> ?d ''help'' = 1 \<and> ?d ''hold'' = 2 \<and>
         (\<exists>x y. ?r = [x, y, ''hold''] \<and> {x, y} = {''hello'', ''help''} \<and>
                freq_get c y \<le> freq_get c x)"
      unfolding w m using helo_candidates [OF s d] helo_distances by (intro conjI)
  qed
  show ?thesis unfolding Let_def using c1 c2 c3 c4 by (intro conjI)
qed

theorem get_candidates_ranked_witness:
  "set (dictionary c_hello) = {''hello'', ''help'', ''hold''} \<and> distinct (dictionary c_hello) \<and>
   get_candidates c_hello ''helo'' 2 = [''hello'', ''help'', ''hold'']"
proof -
  have s: "set (dictionary c_hello) = {''hello'', ''help'', ''hold''}"
    by (auto simp add: c_hello_def)
  have d: "distinct (dictionary c_hello)" by (simp add: c_hello_def)
  have f: "freq_get c_hello ''hello'' = 5" "freq_get c_hello ''help'' = 0"
    by (simp_all add: c_hello_def freq_get_def)
  note t = get_candidates_ranked [of c_hello "''helo''" 2, unfolded Let_def]
  have "\<exists>x y. get_candidates c_hello ''helo'' 2 = [x, y, ''hold''] \<and>
          {x, y} = {''hello'', ''help''} \<and> freq_get c_hello y \<le> freq_get c_hello x"
    using t [THEN conjunct2, THEN conjunct2, THEN conjunct2, THEN mp,
        OF conjI [OF s conjI [OF d conjI [OF refl refl]]]]
    by (elim conjE)
  then obtain x y where r: "get_candidates c_hello ''helo'' 2 = [x, y, ''hold'']"
    and xy: "{x, y} = {''hello'', ''help''}" and le: "freq_get c_hello y \<le> freq_get c_hello x"
    by blast
  have "x = ''hello''"
  proof (rule ccontr)
    assume "x \<noteq> ''hello''"
    then have "x = ''help'' \<and> y = ''hello''" using xy by (auto simp add: doubleton_eq_iff)
    then show False using le f by simp
  qed
  then have "y = ''help''" using xy by (auto simp add: doubleton_eq_iff)
  with \<open>x = ''hello''\<close> r s d show ?thesis by simp
qed

section \<open>The two correction modes\<close>

subsection \<open>The loops, index by index\<close>

lemma correct_word_total: "correct_word ord c token = Inr (word_value ord c token)"
  by (simp add: word_value_def correct_word_def Let_def vote3 split: option.split)

lemma correct_tokens_map:
  "correct_tokens ord c tokens acc =
     Inr (acc @ map (\<lambda>t. if skip_token t then t else word_value ord c t) tokens)"
  by (induction tokens arbitrary: acc) (simp_all add: correct_word_total)

lemma correct_text_tokens_map:
  "correct_text_tokens ord c tokens =
     Inr (map (\<lambda>t. if skip_token t then t else word_value ord c t) tokens)"
  by (simp add: correct_text_tokens_def correct_tokens_map)

lemma context_step_value:
  assumes "xs ! i = tokens ! i"
  shows "context_step ord c tokens i xs = Inr (xs[i := context_value ord c tokens i])"
proof -
  have id: "xs[i := tokens ! i] = xs" using assms by (metis list_update_id)
  show ?thesis
    unfolding context_step_def context_value_def Let_def correct_word_total
    by (simp add: id)
qed

lemma context_loop_value:
  assumes "distinct is" and "\<forall>i \<in> set is. xs ! i = tokens ! i"
  shows "\<exists>r. context_loop ord c tokens is xs = Inr r \<and> length r = length xs \<and>
             (\<forall>j < length xs. r ! j = (if j \<in> set is then context_value ord c tokens j else xs ! j))"
  using assms
proof (induction "is" arbitrary: xs)
  case Nil
  then show ?case by simp
next
  case (Cons i "is")
  let ?ys = "xs[i := context_value ord c tokens i]"
  have s: "context_step ord c tokens i xs = Inr ?ys"
    using Cons.prems(2) by (simp add: context_step_value)
  have d: "distinct is" and n: "i \<notin> set is" using Cons.prems(1) by simp_all
  have e: "\<forall>k \<in> set is. ?ys ! k = tokens ! k"
  proof (intro ballI)
    fix k assume k: "k \<in> set is"
    then have "i \<noteq> k" using n by auto
    then show "?ys ! k = tokens ! k" using Cons.prems(2) k by simp
  qed
  from Cons.IH [OF d e] obtain r where r: "context_loop ord c tokens is ?ys = Inr r"
    and l: "length r = length ?ys"
    and v: "\<forall>j < length ?ys. r ! j = (if j \<in> set is then context_value ord c tokens j else ?ys ! j)"
    by blast
  have "context_loop ord c tokens (i # is) xs = Inr r" by (simp add: s r)
  moreover have "length r = length xs" using l by simp
  moreover have "\<forall>j < length xs. r ! j =
      (if j \<in> set (i # is) then context_value ord c tokens j else xs ! j)"
    using v n by (auto simp add: nth_list_update)
  ultimately show ?case by blast
qed

lemma correct_with_context_tokens_map:
  "correct_with_context_tokens ord c tokens =
     Inr (map (context_value ord c tokens) [0 ..< length tokens])"
proof -
  from context_loop_value [of "[0 ..< length tokens]" tokens tokens ord c]
  obtain r where r: "correct_with_context_tokens ord c tokens = Inr r"
    and l: "length r = length tokens"
    and v: "\<forall>j < length tokens. r ! j = context_value ord c tokens j"
    unfolding correct_with_context_tokens_def by auto
  have "r = map (context_value ord c tokens) [0 ..< length tokens]"
    by (rule nth_equalityI) (simp_all add: l v)
  with r show ?thesis by simp
qed

lemma context_before_last:
  assumes "i \<le> length tokens"
  shows "(context_before_of tokens i \<noteq> []) = (0 < i)"
    and "0 < i \<Longrightarrow> last (context_before_of tokens i) = tokens ! (i - 1)"
proof -
  show "(context_before_of tokens i \<noteq> []) = (0 < i)"
    using assms by (auto simp add: context_before_of_def)
  assume p: "0 < i"
  then have ne: "drop (i - 2) (take i tokens) \<noteq> []" using assms by auto
  have "last (drop (i - 2) (take i tokens)) = last (take i tokens)"
    using ne by (simp add: last_drop)
  also have "\<dots> = tokens ! (i - 1)"
  proof -
    have t: "take i tokens \<noteq> []" using p assms by auto
    have "length (take i tokens) = i" using assms by simp
    then show ?thesis using p by (simp add: last_conv_nth [OF t])
  qed
  finally show "last (context_before_of tokens i) = tokens ! (i - 1)"
    by (simp add: context_before_of_def)
qed

lemma context_after_hd:
  assumes "i < length tokens"
  shows "(context_after_of tokens i \<noteq> []) = (i + 1 < length tokens)"
    and "i + 1 < length tokens \<Longrightarrow> hd (context_after_of tokens i) = tokens ! (i + 1)"
proof -
  show "(context_after_of tokens i \<noteq> []) = (i + 1 < length tokens)"
    using assms by (auto simp add: context_after_of_def)
  assume p: "i + 1 < length tokens"
  then show "hd (context_after_of tokens i) = tokens ! (i + 1)"
    by (simp add: context_after_of_def hd_drop_conv_nth)
qed

lemma context_score_neighbours:
  assumes "i < length tokens"
  shows "context_score c (context_before_of tokens i) (context_after_of tokens i) candidate =
           neighbour_score c tokens i candidate"
proof -
  have le: "i \<le> length tokens" using assms by simp
  show ?thesis
    unfolding context_score_def neighbour_score_def Let_def join2_def
    using context_before_last [OF le] context_after_hd [OF assms]
    by (simp split: option.split)
qed


lemma best_loop_bound:
  "\<forall>x \<in> set cs. score x \<le> m \<Longrightarrow> h \<le> m \<Longrightarrow> snd (best_loop score cs (b, h)) \<le> m"
  by (induction cs arbitrary: b h) simp_all


lemma get_candidates_subset:
  "word \<notin> set (dictionary c) \<Longrightarrow> set (get_candidates c word md) \<subseteq> set (dictionary c)"
  by (auto simp add: get_candidates_set)

lemma context_candidates_unknown:
  assumes "token \<notin> set (dictionary c)"
  shows "context_candidates ord c token =
           (if get_candidates c token 2 = [] then get_norvig_candidates ord c token 2
            else get_candidates c token 2)"
proof (cases "get_candidates c token 2")
  case Nil
  then show ?thesis by (simp add: context_candidates_def)
next
  case (Cons x xs)
  then have "x \<in> set (dictionary c)" using get_candidates_subset [OF assms, of 2] by auto
  then have "x \<noteq> token" using assms by auto
  then show ?thesis using Cons by (simp add: context_candidates_def)
qed

lemma context_value_delegates:
  assumes "i < length tokens" and "\<not> skip_token (tokens ! i)"
    and "tokens ! i \<notin> set (dictionary c)"
    and "\<forall>x \<in> set (context_candidates ord c (tokens ! i)). neighbour_score c tokens i x \<le> 0"
  shows "context_value ord c tokens i = word_value ord c (tokens ! i)"
proof -
  let ?cs = "context_candidates ord c (tokens ! i)"
  let ?score = "context_score c (context_before_of tokens i) (context_after_of tokens i)"
  have "\<forall>x \<in> set ?cs. ?score x \<le> 0"
    using assms(4) by (simp add: context_score_neighbours [OF assms(1)])
  then have "snd (best_loop ?score ?cs (tokens ! i, - 1)) \<le> 0"
    by (rule best_loop_bound) simp
  then show ?thesis
    using assms(2,3) by (simp add: context_value_def Let_def)
qed




subsection \<open>Tokens without context evidence\<close>

text \<open>
  C6. In context mode, a token none of whose candidates has a positive context score (in
  particular when every candidate scores 0, no pair with a neighbour having a recorded
  frequency) is corrected by \<open>correct_word\<close>, and the result at its index is the one
  of the plain mode. This holds for a token that is submitted for correction and outside
  the dictionary; a token that is skipped, or that is a dictionary word in normal form,
  is left as it is by both modes. Both modes return a token list of the length of the
  input.
\<close>

theorem context_fallback:
  assumes "i < length tokens"
    and "\<forall>candidate \<in> set (context_candidates ord c (tokens ! i)).
           neighbour_score c tokens i candidate \<le> 0"
  shows "\<exists>r t. correct_with_context_tokens ord c tokens = Inr r \<and>
               correct_text_tokens ord c tokens = Inr t \<and>
               length r = length tokens \<and> length t = length tokens \<and>
               (\<not> skip_token (tokens ! i) \<and> tokens ! i \<notin> set (dictionary c) \<longrightarrow>
                  correct_word ord c (tokens ! i) = Inr (r ! i) \<and> t ! i = r ! i) \<and>
               (skip_token (tokens ! i) \<longrightarrow> r ! i = tokens ! i \<and> t ! i = tokens ! i) \<and>
               (tokens ! i \<in> set (dictionary c) \<and> strip (lower (tokens ! i)) = tokens ! i \<longrightarrow>
                  r ! i = tokens ! i \<and> t ! i = tokens ! i)"
proof -
  let ?r = "map (context_value ord c tokens) [0 ..< length tokens]"
  let ?t = "map (\<lambda>t. if skip_token t then t else word_value ord c t) tokens"
  have ri: "?r ! i = context_value ord c tokens i" using assms(1) by simp
  have ti: "?t ! i = (if skip_token (tokens ! i) then tokens ! i
                      else word_value ord c (tokens ! i))" using assms(1) by simp
  have a: "correct_word ord c (tokens ! i) = Inr (?r ! i) \<and> ?t ! i = ?r ! i"
    if "\<not> skip_token (tokens ! i) \<and> tokens ! i \<notin> set (dictionary c)"
  proof -
    have "context_value ord c tokens i = word_value ord c (tokens ! i)"
      using assms(1) that assms(2) by (intro context_value_delegates) simp_all
    then show ?thesis using that by (simp only: ri ti correct_word_total) simp
  qed
  have b: "?r ! i = tokens ! i \<and> ?t ! i = tokens ! i" if "skip_token (tokens ! i)"
    using that by (simp only: ri ti) (simp add: context_value_def)
  have d: "?r ! i = tokens ! i \<and> ?t ! i = tokens ! i"
    if "tokens ! i \<in> set (dictionary c) \<and> strip (lower (tokens ! i)) = tokens ! i"
  proof -
    have "correct_word ord c (tokens ! i) = Inr (tokens ! i)"
      using correct_word_fixed_point [of "tokens ! i" c ord] that by simp
    then have "word_value ord c (tokens ! i) = tokens ! i" by (simp add: word_value_def)
    then show ?thesis using that by (simp only: ri ti) (simp add: context_value_def)
  qed
  have "correct_with_context_tokens ord c tokens = Inr ?r"
    by (rule correct_with_context_tokens_map)
  moreover have "correct_text_tokens ord c tokens = Inr ?t"
    by (rule correct_text_tokens_map)
  moreover have "length ?r = length tokens" "length ?t = length tokens" by simp_all
  ultimately show ?thesis using a b d by blast
qed

lemma c_vote_a: "get_candidates c_vote ''teh'' 2 = [''them'', ''the'']"
  by code_simp

lemma c_vote_b: "get_norvig_candidates remdups c_vote ''teh'' 2 = [''the'']"
proof -
  have "''them'' \<notin> set (deletes ''teh'' @ transposes ''teh'' @ replaces ''teh'' @ inserts ''teh'')"
    by code_simp
  then have "''them'' \<notin> one_edit ''teh''" unfolding one_edit_code .
  then have k: "one_edit ''teh'' \<inter> set (dictionary c_vote) = {''the''}"
    using teh_the by (auto simp add: c_vote_def)
  show ?thesis by (rule norvig_single [OF set_order_remdups k]) (simp add: c_vote_def)
qed

theorem context_fallback_witness:
  "correct_with_context_tokens remdups c_vote [''teh''] = Inr [''tea''] \<and>
   correct_text_tokens remdups c_vote [''teh''] = Inr [''tea'']"
proof -
  have h1: "(0::nat) < length [''teh'']" by simp
  have h2: "\<forall>candidate \<in> set (context_candidates remdups c_vote ([''teh''] ! 0)).
              neighbour_score c_vote [''teh''] 0 candidate \<le> 0"
    by (simp add: neighbour_score_def c_vote_def)
  have s: "\<not> skip_token ''teh''" by code_simp
  have n: "''teh'' \<notin> set (dictionary c_vote)" by (simp add: c_vote_def)
  have st: "strip ''teh'' \<noteq> []" "strip (lower ''teh'') = ''teh''" by code_simp+
  have u: "user_corrections c_vote ''teh'' = None" by (simp add: c_vote_def)
  have e: "spell_correction c_vote (spell_added c_vote) ''teh'' = Some ''tea''"
    by (simp add: c_vote_def)
  have w: "correct_word remdups c_vote ''teh'' = Inr ''tea''"
    using st n u by (simp add: correct_word_def Let_def c_vote_a c_vote_b e vote3 or_word_def
        first_or_def)
  from context_fallback [OF h1 h2]
  obtain r t where r: "correct_with_context_tokens remdups c_vote [''teh''] = Inr r"
    and t: "correct_text_tokens remdups c_vote [''teh''] = Inr t"
    and lr: "length r = 1" and lt: "length t = 1"
    and v: "correct_word remdups c_vote ''teh'' = Inr (r ! 0) \<and> t ! 0 = r ! 0"
    using s n by auto
  have "r = [''tea'']" using lr v w by (cases r) auto
  moreover have "t = [''tea'']" using lt v w by (cases t) auto
  ultimately show ?thesis using r t by simp
qed

subsection \<open>Tokens with context evidence\<close>









subsection \<open>Punctuation and numbers\<close>

text \<open>
  A token of digits, or of one punctuation character, is skipped by both modes and left
  as it is.
\<close>

lemma str_in_single: "str_in [ch] s = (ch \<in> set s)"
  by (induction s) (auto split: list.split)

lemma skip_token_punctuation_char: "ch \<in> set punctuation \<Longrightarrow> skip_token [ch]"
  by (simp add: skip_token_def str_in_single)

lemma skip_token_digits: "isdigit token \<Longrightarrow> skip_token token"
  by (simp add: skip_token_def)

lemma skip_token_unchanged:
  assumes "i < length tokens" and "skip_token (tokens ! i)"
  shows "\<exists>r t. correct_with_context_tokens ord c tokens = Inr r \<and>
               correct_text_tokens ord c tokens = Inr t \<and> r ! i = tokens ! i \<and> t ! i = tokens ! i"
  using assms by (simp add: correct_with_context_tokens_map correct_text_tokens_map
      context_value_def)

text \<open>
  C9. The skip test is \<open>token in string.punctuation\<close>, the substring test: the token
  \<open>--\<close> consists of punctuation only and is not a substring of
  \<open>string.punctuation\<close>, so both modes submit it to \<open>correct_word\<close>; with the
  dictionary \<open>{a}\<close> it is changed to \<open>a\<close>.
\<close>

theorem double_hyphen_corrected:
  "\<not> skip_token ''--'' \<and>
   correct_text_tokens remdups c_a [''--''] = Inr [''a''] \<and>
   correct_with_context_tokens remdups c_a [''--''] = Inr [''a'']"
proof -
  have s: "\<not> skip_token ''--''" by code_simp
  have n: "''--'' \<notin> set (dictionary c_a)" by (simp add: c_a_def)
  have st: "strip ''--'' \<noteq> []" "strip (lower ''--'') = ''--''" by code_simp+
  have u: "user_corrections c_a ''--'' = None" by (simp add: c_a_def)
  have e: "spell_correction c_a (spell_added c_a) ''--'' = None" by (simp add: c_a_def)
  have a: "get_candidates c_a ''--'' 2 = [''a'']" by code_simp
  have "''a'' \<notin> set (deletes ''--'' @ transposes ''--'' @ replaces ''--'' @ inserts ''--'')"
    by code_simp
  then have "''a'' \<notin> one_edit ''--''" unfolding one_edit_code .
  then have k1: "one_edit ''--'' \<inter> set (dictionary c_a) = {}" by (simp add: c_a_def)
  have "''-'' \<in> set (deletes ''--'')" "''a'' \<in> set (replaces ''-'')" by code_simp+
  then have "''-'' \<in> one_edit ''--''" "''a'' \<in> one_edit ''-''" by (simp_all add: one_edit_code)
  then have "''a'' \<in> two_edit ''--''" unfolding two_edit_def by blast
  then have k2: "two_edit ''--'' \<inter> set (dictionary c_a) = {''a''}" by (auto simp add: c_a_def)
  have b: "get_norvig_candidates remdups c_a ''--'' 2 = [''a'']"
    by (rule norvig_single_two [OF set_order_remdups k1 k2 n])
  have w: "correct_word remdups c_a ''--'' = Inr ''a''"
    using st n u by (simp add: correct_word_def Let_def a b e vote3 or_word_def first_or_def)
  then have wv: "word_value remdups c_a ''--'' = ''a''" by (simp add: word_value_def)
  have t: "correct_text_tokens remdups c_a [''--''] = Inr [''a'']"
    by (simp add: correct_text_tokens_map s wv)
  have cc: "context_candidates remdups c_a ''--'' = [''a'']"
    by (simp add: context_candidates_unknown [OF n] a)
  have "context_value remdups c_a [''--''] 0 = ''a''"
    using s n by (simp add: context_value_def Let_def cc wv)
  then have "correct_with_context_tokens remdups c_a [''--''] = Inr [''a'']"
    by (simp add: correct_with_context_tokens_map)
  with s t show ?thesis by simp
qed

section \<open>Loading a custom dictionary\<close>

lemma load_line_short:
  "kind_of_line l = Short \<Longrightarrow> load_lines ord c (Line l # rest) = load_lines ord c rest"
  by (auto simp add: kind_of_line_def Let_def split: list.splits option.splits)

lemma load_line_entry:
  "kind_of_line l = Entry w n \<Longrightarrow>
   load_lines ord c (Line l # rest) =
     load_lines ord (c\<lparr>dictionary := ord (dictionary c @ [w]),
                        word_freq := (word_freq c)(w \<mapsto> n)\<rparr>) rest"
  by (auto simp add: kind_of_line_def Let_def split: list.splits option.splits)

lemma load_line_bad:
  "kind_of_line l = BadFrequency \<Longrightarrow> load_lines ord c (Line l # rest) = (c, Some ValueError)"
  by (auto simp add: kind_of_line_def Let_def split: list.splits option.splits)

lemma load_lines_skip:
  assumes "kind_of_line l = Short"
  shows "load_lines ord c (before @ Line l # rest) = load_lines ord c (before @ rest)"
proof (induction before arbitrary: c)
  case Nil
  then show ?case by (simp add: load_line_short [OF assms] del: load_lines.simps)
next
  case (Cons x xs)
  show ?case
  proof (cases x)
    case ReadFailure
    then show ?thesis by simp
  next
    case (Line m)
    show ?thesis
    proof (cases "kind_of_line m")
      case Short
      then show ?thesis using Line Cons.IH by (simp add: load_line_short del: load_lines.simps)
    next
      case (Entry w n)
      then show ?thesis using Line Cons.IH by (simp add: load_line_entry del: load_lines.simps)
    next
      case BadFrequency
      then show ?thesis using Line by (simp add: load_line_bad del: load_lines.simps)
    qed
  qed
qed

lemma load_lines_prefix:
  assumes "\<forall>x \<in> set before. \<exists>l. x = Line l \<and> kind_of_line l \<noteq> BadFrequency"
  shows "\<exists>c'. load_lines ord c before = (c', None) \<and>
              (\<forall>rest. load_lines ord c (before @ rest) = load_lines ord c' rest)"
  using assms
proof (induction before arbitrary: c)
  case Nil
  then show ?case by simp
next
  case (Cons x xs)
  from Cons.prems obtain m where x: "x = Line m" and k: "kind_of_line m \<noteq> BadFrequency"
    by auto
  have r: "\<forall>x \<in> set xs. \<exists>l. x = Line l \<and> kind_of_line l \<noteq> BadFrequency"
    using Cons.prems by simp
  show ?case
  proof (cases "kind_of_line m")
    case Short
    from Cons.IH [OF r, of c] show ?thesis
      using x Short by (simp add: load_line_short del: load_lines.simps)
  next
    case (Entry w n)
    from Cons.IH [OF r, of "c\<lparr>dictionary := ord (dictionary c @ [w]),
                             word_freq := (word_freq c)(w \<mapsto> n)\<rparr>"]
    show ?thesis using x Entry by (simp add: load_line_entry del: load_lines.simps)
  next
    case BadFrequency
    then show ?thesis using k by simp
  qed
qed

text \<open>
  C7, as stated, fails: a line whose second field is no integer is not skipped. The load
  stops there with the error reported; the lines after it are not loaded, and the entries
  of the lines before it stay.
\<close>

theorem load_custom_dictionary_counterexample:
  "snd (load_custom_dictionary remdups c_none
          (Some [Line ''a 1'', Line ''b x'', Line ''c 3''])) = Some ValueError \<and>
   dictionary (fst (load_custom_dictionary remdups c_none
          (Some [Line ''a 1'', Line ''b x'', Line ''c 3'']))) = [''a''] \<and>
   dictionary (fst (load_custom_dictionary remdups c_none
          (Some [Line ''a 1'', Line ''c 3'']))) = [''a'', ''c'']"
  by code_simp

text \<open>
  C7, amended. A file that cannot be opened leaves the corrector as it was, with the error
  reported. A short line is skipped wherever it stands, and an entry line adds its word to
  the dictionary and records its frequency. After lines that are all short lines or
  entries, loaded without error, a line whose second field is no integer, or a failure to
  read the next line, stops the load with the error reported: what the lines before it
  loaded is kept and nothing after it is loaded.
\<close>

theorem load_custom_dictionary_failures:
  "load_custom_dictionary ord c None = (c, Some IOError) \<and>
   (kind_of_line l = Short \<longrightarrow>
      load_custom_dictionary ord c (Some (before @ Line l # rest)) =
        load_custom_dictionary ord c (Some (before @ rest))) \<and>
   (kind_of_line l = Entry w n \<longrightarrow>
      load_custom_dictionary ord c (Some [Line l]) =
        (c\<lparr>dictionary := ord (dictionary c @ [w]), word_freq := (word_freq c)(w \<mapsto> n)\<rparr>,
         None)) \<and>
   ((\<forall>x \<in> set before. \<exists>m. x = Line m \<and> kind_of_line m \<noteq> BadFrequency) \<longrightarrow>
      (\<exists>c'. load_custom_dictionary ord c (Some before) = (c', None) \<and>
            (kind_of_line l = BadFrequency \<longrightarrow>
               load_custom_dictionary ord c (Some (before @ Line l # rest)) =
                 (c', Some ValueError)) \<and>
            load_custom_dictionary ord c (Some (before @ ReadFailure # rest)) =
              (c', Some IOError)))"
proof (intro conjI impI)
  show "load_custom_dictionary ord c None = (c, Some IOError)"
    by (simp add: load_custom_dictionary_def)
  show "load_custom_dictionary ord c (Some (before @ Line l # rest)) =
        load_custom_dictionary ord c (Some (before @ rest))" if "kind_of_line l = Short"
    using that by (simp add: load_custom_dictionary_def load_lines_skip)
  show "load_custom_dictionary ord c (Some [Line l]) =
        (c\<lparr>dictionary := ord (dictionary c @ [w]), word_freq := (word_freq c)(w \<mapsto> n)\<rparr>,
         None)" if "kind_of_line l = Entry w n"
    using that by (simp add: load_custom_dictionary_def load_line_entry del: load_lines.simps(3))
  show "\<exists>c'. load_custom_dictionary ord c (Some before) = (c', None) \<and>
            (kind_of_line l = BadFrequency \<longrightarrow>
               load_custom_dictionary ord c (Some (before @ Line l # rest)) =
                 (c', Some ValueError)) \<and>
            load_custom_dictionary ord c (Some (before @ ReadFailure # rest)) =
              (c', Some IOError)"
    if "\<forall>x \<in> set before. \<exists>m. x = Line m \<and> kind_of_line m \<noteq> BadFrequency"
  proof -
    from load_lines_prefix [OF that, of ord c] obtain c'
      where a: "load_lines ord c before = (c', None)"
        and b: "\<forall>rest. load_lines ord c (before @ rest) = load_lines ord c' rest" by blast
    have "load_custom_dictionary ord c (Some before) = (c', None)"
      by (simp add: load_custom_dictionary_def a)
    moreover have "load_custom_dictionary ord c (Some (before @ Line l # rest)) =
                 (c', Some ValueError)" if "kind_of_line l = BadFrequency"
      using that by (simp add: load_custom_dictionary_def b load_line_bad del: load_lines.simps)
    moreover have "load_custom_dictionary ord c (Some (before @ ReadFailure # rest)) =
              (c', Some IOError)"
      by (simp add: load_custom_dictionary_def b)
    ultimately show ?thesis by blast
  qed
qed

theorem load_custom_dictionary_failures_witness:
  "\<exists>c'. load_custom_dictionary remdups c_none (Some [Line ''the 7'', Line ''only'']) = (c', None) \<and>
         load_custom_dictionary remdups c_none
           (Some ([Line ''the 7'', Line ''only''] @ Line ''of many'' # [Line ''to 2''])) =
             (c', Some ValueError) \<and>
         load_custom_dictionary remdups c_none
           (Some ([Line ''the 7'', Line ''only''] @ ReadFailure # [Line ''to 2''])) =
             (c', Some IOError)"
proof -
  have k: "kind_of_line ''the 7'' = Entry ''the'' 7" "kind_of_line ''only'' = Short"
    "kind_of_line ''of many'' = BadFrequency" by code_simp+
  have h: "\<forall>x \<in> set [Line ''the 7'', Line ''only'']. \<exists>m. x = Line m \<and> kind_of_line m \<noteq> BadFrequency"
    using k by simp
  from load_custom_dictionary_failures [of remdups c_none "''of many''"
      "[Line ''the 7'', Line ''only'']" "[Line ''to 2'']"] h k(3)
  show ?thesis by blast
qed


end
